theory Spec2Isabelle
  imports Main
begin

section \<open>Data model of pfinder.py\<close>

text \<open>
  Exceptions of the Python run time that the modelled code can raise: an attribute read on
  \<open>None\<close>, a list index out of range, and \<open>range\<close> applied to \<open>float("inf")\<close>.
\<close>

datatype error = AttributeError | IndexError | TypeError

text \<open>
  A \<open>g_score\<close> is \<open>float("inf")\<close> or a Python integer; a \<open>score\<close> is the same kind of
  number.
\<close>

datatype num = Inf | Fin int

fun num_add :: "num \<Rightarrow> int \<Rightarrow> num" where
  "num_add Inf k = Inf"
| "num_add (Fin a) k = Fin (a + k)"

fun num_less :: "num \<Rightarrow> num \<Rightarrow> bool" where
  "num_less (Fin a) (Fin b) = (a < b)"
| "num_less (Fin a) Inf = True"
| "num_less Inf b = False"

text \<open>
  The colour constants of the module (WHITE = (255, 255, 255), BLUE = (84, 119, 232),
  CYAN = (62, 234, 250), RED = (235, 87, 84), GREEN = (84, 232, 124),
  GREY = (112, 109, 103)), pairwise distinct, and the colours of the gradient that
  \<open>draw_path\<close> paints, numbered by their position in the gradient.
\<close>

datatype color = WHITE | BLUE | CYAN | RED | GREEN | GREY | GRADIENT nat

datatype alg = A_STAR | DJIKSTRA | GREEDY

text \<open>
  A \<open>Node\<close> object lives at one place of the nested list \<open>nodes\<close> for the whole run, so a
  reference to it (\<open>START\<close>, \<open>END\<close>, \<open>parent_node\<close>, a queue entry) is the pair of list
  indices of that place.
\<close>

type_synonym ref = "nat \<times> nat"

record node =
  row :: int
  column :: int
  color :: color
  needs_refresh :: bool
  g_score :: num
  h_score :: int
  parent_node :: "ref option"

text \<open>The module's global variables that the modelled functions read or write.\<close>

record world =
  nodes :: "node list list"
  ROWS :: int
  COLUMNS :: int
  START :: "ref option"
  END :: "ref option"
  ALG :: alg
  PAUSED :: bool
  QUICK_MODE :: bool
  SHOW_MAZE_ANIM :: bool

definition node_at :: "world \<Rightarrow> ref \<Rightarrow> node" where
  "node_at w r = nodes w ! fst r ! snd r"

definition valid_ref :: "world \<Rightarrow> ref \<Rightarrow> bool" where
  "valid_ref w r = (fst r < length (nodes w) \<and> snd r < length (nodes w ! fst r))"

definition upd_node :: "ref \<Rightarrow> (node \<Rightarrow> node) \<Rightarrow> world \<Rightarrow> world" where
  "upd_node r f w =
     w\<lparr>nodes := (nodes w)[fst r := (nodes w ! fst r)[snd r := f (nodes w ! fst r ! snd r)]]\<rparr>"

text \<open>The cells in the order of \<open>for row in nodes: for node in row\<close>.\<close>

definition all_refs :: "node list list \<Rightarrow> ref list" where
  "all_refs ns =
     concat (map (\<lambda>i. map (\<lambda>j. (i, j)) [0..<length (ns ! i)]) [0..<length ns])"

text \<open>\<open>Node.__init__\<close> and \<open>create_nodes\<close>.\<close>

definition Node :: "int \<Rightarrow> int \<Rightarrow> node" where
  "Node r c = \<lparr>row = r, column = c, color = WHITE, needs_refresh = True,
     g_score = Inf, h_score = 0, parent_node = None\<rparr>"

definition create_nodes :: "world \<Rightarrow> world" where
  "create_nodes w =
     w\<lparr>nodes := map (\<lambda>r. map (\<lambda>c. Node (int r) (int c)) [0..<nat (COLUMNS w)])
                   [0..<nat (ROWS w)]\<rparr>"

text \<open>
  The shape \<open>create_nodes\<close> gives the grid: \<open>ROWS\<close> rows of \<open>COLUMNS\<close> cells, each cell
  carrying its own indices.
\<close>

definition grid_ok :: "world \<Rightarrow> bool" where
  "grid_ok w =
     (ROWS w = int (length (nodes w)) \<and>
      list_all (\<lambda>xs. COLUMNS w = int (length xs)) (nodes w) \<and>
      list_all (\<lambda>r. row (node_at w r) = int (fst r) \<and> column (node_at w r) = int (snd r))
        (all_refs (nodes w)))"

subsection \<open>Indexing\<close>

text \<open>
  Python's \<open>xs[i]\<close>: a negative index counts from the end, an index outside the list
  raises. The result is the position that is read.
\<close>

definition py_index :: "nat \<Rightarrow> int \<Rightarrow> error + nat" where
  "py_index len i =
     (let j = (if i < 0 then int len + i else i)
      in if 0 \<le> j \<and> j < int len then Inr (nat j) else Inl IndexError)"

definition nodes_ref :: "world \<Rightarrow> int \<Rightarrow> int \<Rightarrow> error + ref" where
  "nodes_ref w i j =
     (case py_index (length (nodes w)) i of
        Inl e \<Rightarrow> Inl e
      | Inr a \<Rightarrow>
          (case py_index (length (nodes w ! a)) j of
             Inl e \<Rightarrow> Inl e
           | Inr b \<Rightarrow> Inr (a, b)))"

definition append_if :: "bool \<Rightarrow> error + ref \<Rightarrow> ref list \<Rightarrow> error + ref list" where
  "append_if c x acc =
     (if c then (case x of Inl e \<Rightarrow> Inl e | Inr r \<Rightarrow> Inr (acc @ [r])) else Inr acc)"

definition bind_err :: "error + 'a \<Rightarrow> ('a \<Rightarrow> error + 'b) \<Rightarrow> error + 'b" where
  "bind_err m f = (case m of Inl e \<Rightarrow> Inl e | Inr x \<Rightarrow> f x)"

subsection \<open>Methods of Node\<close>

definition get_neighbours :: "world \<Rightarrow> ref \<Rightarrow> int \<Rightarrow> error + ref list" where
  "get_neighbours w self n =
     (let r = row (node_at w self); c = column (node_at w self) in
      bind_err (append_if (r > n - 1) (nodes_ref w (r - n) c) []) (\<lambda>a1.
      bind_err (append_if (c > n - 1) (nodes_ref w r (c - n)) a1) (\<lambda>a2.
      bind_err (append_if (r < ROWS w - n) (nodes_ref w (r + n) c) a2) (\<lambda>a3.
      append_if (c < COLUMNS w - n) (nodes_ref w r (c + n)) a3))))"

definition is_start :: "world \<Rightarrow> ref \<Rightarrow> bool" where
  "is_start w r = (START w = Some r)"

definition is_end :: "world \<Rightarrow> ref \<Rightarrow> bool" where
  "is_end w r = (END w = Some r)"

definition is_obstacle :: "world \<Rightarrow> ref \<Rightarrow> bool" where
  "is_obstacle w r = (color (node_at w r) = GREY)"

definition is_active :: "world \<Rightarrow> ref \<Rightarrow> bool" where
  "is_active w r = (color (node_at w r) = GREEN)"

definition is_visited :: "world \<Rightarrow> ref \<Rightarrow> bool" where
  "is_visited w r = (color (node_at w r) = RED \<or> is_start w r)"

definition is_normal :: "world \<Rightarrow> ref \<Rightarrow> bool" where
  "is_normal w r = (color (node_at w r) = WHITE)"

definition paint :: "color \<Rightarrow> node \<Rightarrow> node" where
  "paint c n = n\<lparr>color := c, needs_refresh := True\<rparr>"

definition make_start :: "ref \<Rightarrow> world \<Rightarrow> world" where
  "make_start r w =
     (if \<not> is_end w r then (upd_node r (paint BLUE) w)\<lparr>START := Some r\<rparr> else w)"

definition make_end :: "ref \<Rightarrow> world \<Rightarrow> world" where
  "make_end r w =
     (if \<not> is_start w r then (upd_node r (paint CYAN) w)\<lparr>END := Some r\<rparr> else w)"

definition make_obstacle :: "ref \<Rightarrow> world \<Rightarrow> world" where
  "make_obstacle r w =
     (if \<not> is_end w r \<and> \<not> is_start w r then upd_node r (paint GREY) w else w)"

definition make_active :: "ref \<Rightarrow> world \<Rightarrow> world" where
  "make_active r w = upd_node r (paint GREEN) w"

definition make_visited :: "ref \<Rightarrow> world \<Rightarrow> world" where
  "make_visited r w = (if \<not> is_start w r then upd_node r (paint RED) w else w)"

definition make_path :: "color \<Rightarrow> ref \<Rightarrow> world \<Rightarrow> world" where
  "make_path c r w = upd_node r (paint c) w"

definition reset_node :: "node \<Rightarrow> node" where
  "reset_node n = n\<lparr>color := WHITE, parent_node := None, g_score := Inf, needs_refresh := True\<rparr>"

definition reset :: "ref \<Rightarrow> world \<Rightarrow> world" where
  "reset r w =
     upd_node r reset_node
       (if is_start w r then w\<lparr>START := None\<rparr>
        else if is_end w r then w\<lparr>END := None\<rparr>
        else w)"

subsection \<open>reset\_grid\<close>

definition soft_reset :: "ref \<Rightarrow> world \<Rightarrow> world" where
  "soft_reset r w =
     (if \<not> is_start w r \<and> \<not> is_end w r \<and> \<not> is_obstacle w r then reset r w else w)"

definition clear_end :: "node \<Rightarrow> node" where
  "clear_end n = n\<lparr>g_score := Inf, parent_node := None\<rparr>"

definition reset_grid :: "int \<Rightarrow> world \<Rightarrow> error + world" where
  "reset_grid mode w =
     (if mode = 0 then Inr (fold reset (all_refs (nodes w)) w)
      else if mode = 1 then
        (let w' = fold soft_reset (all_refs (nodes w)) w in
         case END w' of
           None \<Rightarrow> Inl AttributeError
         | Some e \<Rightarrow> Inr (upd_node e clear_end w'))
      else Inr w)"

subsection \<open>Input events and the screen\<close>

text \<open>
  What \<open>pygame.event.get()\<close> returns at one poll is a list of events; the model keeps of
  an event what \<open>handle_input_running\<close> tests. \<open>None\<close> is \<open>sys.exit()\<close>.
\<close>

datatype key = K_q | K_s | K_SPACE | K_BACKSPACE | K_other

datatype event = QUIT | KEYDOWN key | OTHER

fun handle_input_running :: "event list \<Rightarrow> world \<Rightarrow> (bool \<times> world) option" where
  "handle_input_running [] w = Some (False, w)"
| "handle_input_running (QUIT # evs) w = None"
| "handle_input_running (KEYDOWN K_q # evs) w =
     handle_input_running evs (w\<lparr>QUICK_MODE := \<not> QUICK_MODE w\<rparr>)"
| "handle_input_running (KEYDOWN K_s # evs) w =
     handle_input_running evs (w\<lparr>SHOW_MAZE_ANIM := \<not> SHOW_MAZE_ANIM w\<rparr>)"
| "handle_input_running (KEYDOWN K_SPACE # evs) w =
     handle_input_running evs (w\<lparr>PAUSED := \<not> PAUSED w\<rparr>)"
| "handle_input_running (KEYDOWN K_BACKSPACE # evs) w = Some (True, w)"
| "handle_input_running (KEYDOWN K_other # evs) w = handle_input_running evs w"
| "handle_input_running (OTHER # evs) w = handle_input_running evs w"

text \<open>
  \<open>Node.draw\<close> and \<open>draw_screen\<close>: of the drawing, the model keeps the effect on the
  cells, which is to clear \<open>needs_refresh\<close>.
\<close>

definition draw :: "node \<Rightarrow> node" where
  "draw n = (if needs_refresh n then n\<lparr>needs_refresh := False\<rparr> else n)"

definition draw_screen :: "world \<Rightarrow> world" where
  "draw_screen w = w\<lparr>nodes := map (map draw) (nodes w)\<rparr>"

subsection \<open>Scores\<close>

definition update_h_score :: "ref \<Rightarrow> world \<Rightarrow> error + world" where
  "update_h_score r w =
     (case END w of
        None \<Rightarrow> Inl AttributeError
      | Some e \<Rightarrow>
          Inr (upd_node r
                 (\<lambda>n. n\<lparr>h_score := \<bar>row (node_at w e) - row n\<bar> +
                                     \<bar>column (node_at w e) - column n\<bar>\<rparr>) w))"

definition f_score :: "world \<Rightarrow> ref \<Rightarrow> num" where
  "f_score w r = num_add (g_score (node_at w r)) (h_score (node_at w r))"

definition score :: "world \<Rightarrow> ref \<Rightarrow> num" where
  "score w r =
     (if ALG w = A_STAR then f_score w r
      else if ALG w = DJIKSTRA then g_score (node_at w r)
      else Fin (h_score (node_at w r)))"

subsection \<open>The priority queue\<close>

text \<open>
  An entry is the tuple \<open>(score, index, node)\<close>. The queue is the list of its entries in
  the order they were put; \<open>get\<close> takes out the least one in the order of Python's tuples.
  Two entries equal in score and index would make Python compare two \<open>Node\<close> objects;
  \<open>entry_less\<close> is then false both ways and \<open>pq_min\<close> keeps the earlier entry.
\<close>

type_synonym entry = "num \<times> int \<times> ref"

definition entry_less :: "entry \<Rightarrow> entry \<Rightarrow> bool" where
  "entry_less a b =
     (if fst a \<noteq> fst b then num_less (fst a) (fst b) else fst (snd a) < fst (snd b))"

fun pq_min :: "entry \<Rightarrow> entry list \<Rightarrow> entry" where
  "pq_min m [] = m"
| "pq_min m (e # es) = pq_min (if entry_less e m then e else m) es"

definition pq_get :: "entry list \<Rightarrow> entry \<times> entry list" where
  "pq_get q = (let m = pq_min (hd q) (tl q) in (m, remove1 m q))"

subsection \<open>find\_path\<close>

text \<open>
  The local variables of \<open>find_path\<close> together with the globals. \<open>puts\<close> is a history
  variable: the entries in the order they were put into the queue. Nothing reads it.
\<close>

record search =
  grid :: world
  active :: "entry list"
  index :: int
  puts :: "entry list"

datatype outcome =
    PathFound world
  | NoPath world
  | Cancelled world
  | Exited
  | Raised error
  | Pending search

fun fold_err :: "('a \<Rightarrow> 's \<Rightarrow> error + 's) \<Rightarrow> 'a list \<Rightarrow> 's \<Rightarrow> error + 's" where
  "fold_err f [] s = Inr s"
| "fold_err f (x # xs) s = (case f x s of Inl e \<Rightarrow> Inl e | Inr s' \<Rightarrow> fold_err f xs s')"

definition init_node :: "ref \<Rightarrow> world \<Rightarrow> error + world" where
  "init_node r w =
     bind_err (update_h_score r w)
       (\<lambda>w'. Inr (upd_node r (\<lambda>n. n\<lparr>parent_node := None\<rparr>) w'))"

definition put :: "ref \<Rightarrow> search \<Rightarrow> search" where
  "put r s =
     s\<lparr>active := active s @ [(score (grid s) r, index s, r)],
       puts := puts s @ [(score (grid s) r, index s, r)]\<rparr>"

definition find_path_init :: "world \<Rightarrow> error + search" where
  "find_path_init w =
     bind_err (fold_err init_node (all_refs (nodes w)) w) (\<lambda>w1.
       case START w1 of
         None \<Rightarrow> Inl AttributeError
       | Some s \<Rightarrow>
           Inr (put s \<lparr>grid = upd_node s (\<lambda>n. n\<lparr>g_score := Fin 0\<rparr>) w1,
                        active = [], index = 0, puts = []\<rparr>))"

text \<open>The body of \<open>for neighbour in current.get_neighbours(1)\<close>.\<close>

definition relax :: "ref \<Rightarrow> ref \<Rightarrow> search \<Rightarrow> search" where
  "relax current neighbour s =
     (let w = grid s in
      if \<not> is_obstacle w neighbour then
        if num_less (num_add (g_score (node_at w current)) 1) (g_score (node_at w neighbour))
        then
          let w1 = upd_node neighbour
                     (\<lambda>n. n\<lparr>g_score := num_add (g_score (node_at w current)) 1\<rparr>) w;
              w2 = upd_node neighbour (\<lambda>n. n\<lparr>parent_node := Some current\<rparr>) w1
          in if \<not> is_active w2 neighbour \<and> \<not> is_visited w2 neighbour then
               (let s3 = put neighbour (s\<lparr>grid := make_active neighbour w2\<rparr>)
                in s3\<lparr>index := index s3 + 1\<rparr>)
             else s\<lparr>grid := w2\<rparr>
        else s
      else s)"

text \<open>
  One pass through the body of \<open>while not active.empty()\<close>, with the events of its poll:
  the outcome that ends the loop, or the state for the next pass.
\<close>

definition search_iter :: "event list \<Rightarrow> search \<Rightarrow> outcome + search" where
  "search_iter evs s =
     (case handle_input_running evs (grid s) of
        None \<Rightarrow> Inl Exited
      | Some (cancel, w1) \<Rightarrow>
          if cancel then
            (case reset_grid 1 w1 of Inl e \<Rightarrow> Inl (Raised e) | Inr w2 \<Rightarrow> Inl (Cancelled w2))
          else if PAUSED w1 then Inr (s\<lparr>grid := w1\<rparr>)
          else
            (let w2 = (if \<not> QUICK_MODE w1 then draw_screen w1 else w1);
                 got = pq_get (active s);
                 current = snd (snd (fst got))
             in if END w2 = Some current then Inl (PathFound w2)
                else
                  (let w3 = make_visited current w2 in
                   case get_neighbours w3 current 1 of
                     Inl e \<Rightarrow> Inl (Raised e)
                   | Inr nbs \<Rightarrow>
                       Inr (fold (relax current) nbs (s\<lparr>grid := w3, active := snd got\<rparr>)))))"

text \<open>
  The loop, given the events of each poll in turn. \<open>Pending\<close> is the state of a search
  that is still running when the given polls are used up.
\<close>

fun find_path_loop :: "event list list \<Rightarrow> search \<Rightarrow> outcome" where
  "find_path_loop [] s = (if active s = [] then NoPath (grid s) else Pending s)"
| "find_path_loop (evs # polls) s =
     (if active s = [] then NoPath (grid s)
      else (case search_iter evs s of
              Inl out \<Rightarrow> out
            | Inr s' \<Rightarrow> find_path_loop polls s'))"

text \<open>
  \<open>find_path\<close> up to the report of its result. What follows in the source is
  \<open>draw_path\<close> (for \<open>PathFound\<close>) and \<open>reset_grid(1)\<close>.
\<close>

definition find_path :: "event list list \<Rightarrow> world \<Rightarrow> outcome" where
  "find_path polls w =
     (case find_path_init w of
        Inl e \<Rightarrow> Raised e
      | Inr s \<Rightarrow> find_path_loop polls s)"

text \<open>The search states a run passes through: the state after each of the given polls.\<close>

fun run_iters :: "event list list \<Rightarrow> search \<Rightarrow> search option" where
  "run_iters [] s = Some s"
| "run_iters (evs # polls) s =
     (if active s = [] then None
      else (case search_iter evs s of
              Inl out \<Rightarrow> None
            | Inr s' \<Rightarrow> run_iters polls s'))"

subsection \<open>draw\_path\<close>

text \<open>
  The first loop of \<open>draw_path\<close>, which collects the cells of the path:
  \<open>for _ in range(END.g_score): path.insert(0, node); node = node.parent_node\<close>.
\<close>

fun walk_parents :: "world \<Rightarrow> nat \<Rightarrow> ref option \<Rightarrow> ref list \<Rightarrow> error + ref list" where
  "walk_parents w 0 node path = Inr path"
| "walk_parents w (Suc k) node path =
     (case node of
        None \<Rightarrow> Inl AttributeError
      | Some r \<Rightarrow> walk_parents w k (parent_node (node_at w r)) (r # path))"

definition draw_path_cells :: "world \<Rightarrow> error + ref list" where
  "draw_path_cells w =
     (case END w of
        None \<Rightarrow> Inl AttributeError
      | Some e \<Rightarrow>
          (case g_score (node_at w e) of
             Inf \<Rightarrow> Inl TypeError
           | Fin k \<Rightarrow> walk_parents w (nat k) (Some e) []))"

subsection \<open>Auxiliary definitions for the statements\<close>

text \<open>
  The state of the module when \<open>main\<close> has called \<open>create_nodes\<close>, for a grid of the
  given numbers of rows and columns.
\<close>

definition initial_world :: "int \<Rightarrow> int \<Rightarrow> world" where
  "initial_world r c =
     create_nodes \<lparr>nodes = [], ROWS = r, COLUMNS = c, START = None, END = None,
       ALG = A_STAR, PAUSED = False, QUICK_MODE = False, SHOW_MAZE_ANIM = False\<rparr>"

text \<open>
  The cells that \<open>get_neighbours\<close> returns on a well-formed grid, by their indices: the
  four tests of the source on the indices of the cell.
\<close>

definition neighbour_refs :: "world \<Rightarrow> ref \<Rightarrow> int \<Rightarrow> ref list" where
  "neighbour_refs w self n =
     (if int (fst self) > n - 1 then [(nat (int (fst self) - n), snd self)] else []) @
     (if int (snd self) > n - 1 then [(fst self, nat (int (snd self) - n))] else []) @
     (if int (fst self) < ROWS w - n then [(nat (int (fst self) + n), snd self)] else []) @
     (if int (snd self) < COLUMNS w - n then [(fst self, nat (int (snd self) + n))] else [])"

text \<open>The \<open>h_score\<close> of every cell, in the shape of the grid.\<close>

definition h_scores :: "world \<Rightarrow> int list list" where
  "h_scores w = map (map h_score) (nodes w)"

text \<open>The test of \<open>reset_grid(1)\<close> on a cell.\<close>

definition resettable :: "world \<Rightarrow> ref \<Rightarrow> bool" where
  "resettable w r = (\<not> is_start w r \<and> \<not> is_end w r \<and> \<not> is_obstacle w r)"

text \<open>What \<open>update_h_score\<close> computes for a cell, given the cell of \<open>END\<close>.\<close>

definition manhattan :: "node \<Rightarrow> node \<Rightarrow> int" where
  "manhattan e n = \<bar>row e - row n\<bar> + \<bar>column e - column n\<bar>"

text \<open>
  The two assignments of the first loop of \<open>find_path\<close> on one cell, given the row and
  the column of \<open>END\<close>.
\<close>

definition init_cell :: "int \<Rightarrow> int \<Rightarrow> node \<Rightarrow> node" where
  "init_cell er ec n = n\<lparr>h_score := \<bar>er - row n\<bar> + \<bar>ec - column n\<bar>, parent_node := None\<rparr>"

text \<open>
  A grid as the user sets it up from the initial state: the algorithm chosen by its key, the
  first click making the Start cell, the second the End cell, the following ones obstacles.
\<close>

definition scenario :: "int \<Rightarrow> int \<Rightarrow> alg \<Rightarrow> ref \<Rightarrow> ref \<Rightarrow> ref list \<Rightarrow> world" where
  "scenario r c a s e obs =
     fold make_obstacle obs (make_end e (make_start s ((initial_world r c)\<lparr>ALG := a\<rparr>)))"

text \<open>A grid of two rows and two columns with one obstacle, for the instances.\<close>

definition example_world :: world where
  "example_world = scenario 2 2 A_STAR (0, 0) (1, 1) [(0, 1)]"

text \<open>The state in which a search reported a path, and whether a search is still running.\<close>

fun found_world :: "outcome \<Rightarrow> world option" where
  "found_world (PathFound w) = Some w"
| "found_world out = None"

fun is_pending :: "outcome \<Rightarrow> bool" where
  "is_pending (Pending s) = True"
| "is_pending out = False"

text \<open>The values the claims allow for a \<open>g_score\<close>: infinite, or a number not below 0.\<close>

fun g_nonneg :: "num \<Rightarrow> bool" where
  "g_nonneg Inf = True"
| "g_nonneg (Fin k) = (0 \<le> k)"

text \<open>Every cell of the grid has such a \<open>g_score\<close>.\<close>

definition g_ok :: "world \<Rightarrow> bool" where
  "g_ok w = list_all (\<lambda>r. g_nonneg (g_score (node_at w r))) (all_refs (nodes w))"

text \<open>
  The first test of a relaxation, on the state before it: the neighbour is no obstacle and
  the path through the current cell is shorter.
\<close>

definition improves :: "world \<Rightarrow> ref \<Rightarrow> ref \<Rightarrow> bool" where
  "improves w c n =
     (\<not> is_obstacle w n \<and>
      num_less (num_add (g_score (node_at w c)) 1) (g_score (node_at w n)))"

text \<open>The second test of a relaxation: the neighbour is neither open nor visited.\<close>

definition enqueues :: "world \<Rightarrow> ref \<Rightarrow> bool" where
  "enqueues w n = (color (node_at w n) \<noteq> GREEN \<and> color (node_at w n) \<noteq> RED \<and> \<not> is_start w n)"

text \<open>The cell of the neighbour after a relaxation that passed the first test.\<close>

definition relaxed :: "world \<Rightarrow> ref \<Rightarrow> ref \<Rightarrow> node \<Rightarrow> node" where
  "relaxed w c n x =
     (if enqueues w n
      then x\<lparr>g_score := num_add (g_score (node_at w c)) 1, parent_node := Some c,
             color := GREEN, needs_refresh := True\<rparr>
      else x\<lparr>g_score := num_add (g_score (node_at w c)) 1, parent_node := Some c\<rparr>)"

text \<open>Not greater, for scores.\<close>

definition g_le :: "num \<Rightarrow> num \<Rightarrow> bool" where
  "g_le a b = (a = b \<or> num_less a b)"

text \<open>The cell that \<open>active.get()[2]\<close> yields in a state of the search.\<close>

definition current_of :: "search \<Rightarrow> ref" where
  "current_of s = snd (snd (fst (pq_get (active s))))"

text \<open>\<open>if not QUICK_MODE: draw_screen()\<close>.\<close>

definition shown :: "world \<Rightarrow> world" where
  "shown w = (if \<not> QUICK_MODE w then draw_screen w else w)"

text \<open>Every entry of the queue refers to a cell of the grid.\<close>

definition queue_valid :: "search \<Rightarrow> bool" where
  "queue_valid s = (\<forall>e\<in>set (active s). valid_ref (grid s) (snd (snd e)))"

text \<open>The invariant of the search loop for the range of the \<open>g_score\<close>s.\<close>

definition g_inv :: "search \<Rightarrow> bool" where
  "g_inv s = (g_ok (grid s) \<and> queue_valid s)"

text \<open>The insertion index of a queue entry.\<close>

definition entry_index :: "entry \<Rightarrow> int" where
  "entry_index e = fst (snd e)"

text \<open>
  The numbering of the insertions in a state of the loop: the indices of all the entries
  put so far are 0 for the entry of Start and then 0, 1, 2, ... up to the counter; the
  entries in the queue are among them, in the order of their indices.
\<close>

definition numbered :: "search \<Rightarrow> bool" where
  "numbered s =
     (0 \<le> index s \<and>
      map entry_index (puts s) = 0 # map int [0..<nat (index s)] \<and>
      sorted_wrt (<) (map entry_index (active s)) \<and>
      set (active s) \<subseteq> set (puts s))"

text \<open>Every entry in the queue has an index below the counter.\<close>

definition below_counter :: "search \<Rightarrow> bool" where
  "below_counter s = (\<forall>e\<in>set (active s). entry_index e < index s)"

text \<open>
  The invariant of the loop: the numbering, and every entry of the queue below the counter
  unless nothing but the entry of Start has been put.
\<close>

definition fifo_inv :: "search \<Rightarrow> bool" where
  "fifo_inv s = (numbered s \<and> (below_counter s \<or> (index s = 0 \<and> length (active s) = 1)))"

text \<open>The lengths of the rows of the grid.\<close>

definition shape :: "world \<Rightarrow> nat list" where
  "shape w = map length (nodes w)"











section \<open>Cells and their updates\<close>

lemma nodes_upd_node_length [simp]: "length (nodes (upd_node r f w)) = length (nodes w)"
  by (simp add: upd_node_def)

lemma nodes_upd_node_row_length [simp]:
  "length (nodes (upd_node r f w) ! i) = length (nodes w ! i)"
  by (cases "fst r < length (nodes w)"; cases "i = fst r")
     (simp_all add: upd_node_def list_update_beyond)

lemma valid_ref_upd_node [simp]: "valid_ref (upd_node r f w) q = valid_ref w q"
  by (simp add: valid_ref_def)

lemma all_refs_upd_node [simp]: "all_refs (nodes (upd_node r f w)) = all_refs (nodes w)"
  by (simp add: all_refs_def)

lemma node_at_upd_node:
  "node_at (upd_node r f w) q =
     (if q = r \<and> valid_ref w r then f (node_at w r) else node_at w q)"
proof (cases "fst r < length (nodes w)")
  case False
  then show ?thesis by (simp add: upd_node_def node_at_def valid_ref_def list_update_beyond)
next
  case True
  show ?thesis
  proof (cases "fst q = fst r")
    case False
    then show ?thesis using True by (auto simp: upd_node_def node_at_def)
  next
    case same: True
    show ?thesis
    proof (cases "snd q = snd r")
      case False
      then show ?thesis using True same
        by (auto simp: upd_node_def node_at_def)
    next
      case True
      with same have "q = r" by (simp add: prod_eq_iff)
      then show ?thesis using \<open>fst r < length (nodes w)\<close>
        by (cases "snd r < length (nodes w ! fst r)")
           (simp_all add: upd_node_def node_at_def valid_ref_def list_update_beyond)
    qed
  qed
qed

lemma upd_node_fields [simp]:
  "ROWS (upd_node r f w) = ROWS w"
  "COLUMNS (upd_node r f w) = COLUMNS w"
  "START (upd_node r f w) = START w"
  "END (upd_node r f w) = END w"
  "ALG (upd_node r f w) = ALG w"
  "PAUSED (upd_node r f w) = PAUSED w"
  "QUICK_MODE (upd_node r f w) = QUICK_MODE w"
  "SHOW_MAZE_ANIM (upd_node r f w) = SHOW_MAZE_ANIM w"
  by (simp_all add: upd_node_def)

lemma mem_all_refs: "r \<in> set (all_refs ns) \<longleftrightarrow> fst r < length ns \<and> snd r < length (ns ! fst r)"
  by (cases r) (auto simp: all_refs_def image_iff)

lemma valid_ref_all_refs: "valid_ref w r \<longleftrightarrow> r \<in> set (all_refs (nodes w))"
  by (simp add: mem_all_refs valid_ref_def)

section \<open>The neighbours of a cell\<close>

lemma grid_okD:
  assumes "grid_ok w"
  shows "length (nodes w) = nat (ROWS w)" "ROWS w = int (length (nodes w))"
    and "i < length (nodes w) \<Longrightarrow> int (length (nodes w ! i)) = COLUMNS w"
    and "valid_ref w r \<Longrightarrow> row (node_at w r) = int (fst r)"
    and "valid_ref w r \<Longrightarrow> column (node_at w r) = int (snd r)"
proof -
  show "length (nodes w) = nat (ROWS w)" "ROWS w = int (length (nodes w))"
    using assms by (simp_all add: grid_ok_def)
  show "i < length (nodes w) \<Longrightarrow> int (length (nodes w ! i)) = COLUMNS w"
    using assms by (simp add: grid_ok_def list_all_length)
  show "valid_ref w r \<Longrightarrow> row (node_at w r) = int (fst r)"
    using assms by (simp add: grid_ok_def list_all_iff valid_ref_all_refs)
  show "valid_ref w r \<Longrightarrow> column (node_at w r) = int (snd r)"
    using assms by (simp add: grid_ok_def list_all_iff valid_ref_all_refs)
qed

lemma valid_ref_grid_ok:
  "grid_ok w \<Longrightarrow> valid_ref w r \<longleftrightarrow> int (fst r) < ROWS w \<and> int (snd r) < COLUMNS w"
proof -
  assume ok: "grid_ok w"
  show ?thesis
  proof (cases "fst r < length (nodes w)")
    case True
    then show ?thesis using grid_okD(3)[OF ok, of "fst r"] grid_okD(2)[OF ok] by (auto simp: valid_ref_def)
  next
    case False
    then show ?thesis using grid_okD(2)[OF ok] by (auto simp: valid_ref_def)
  qed
qed

lemma nodes_ref_in_range:
  assumes "grid_ok w" "0 \<le> i" "i < ROWS w" "0 \<le> j" "j < COLUMNS w"
  shows "nodes_ref w i j = Inr (nat i, nat j)"
proof -
  have 1: "py_index (length (nodes w)) i = Inr (nat i)"
    using assms by (simp add: py_index_def grid_okD(2))
  have "nat i < length (nodes w)" using assms by (simp add: grid_okD(2))
  then have "int (length (nodes w ! nat i)) = COLUMNS w" using assms(1) by (rule grid_okD(3)[rotated])
  then have 2: "py_index (length (nodes w ! nat i)) j = Inr (nat j)"
    using assms by (simp add: py_index_def)
  show ?thesis by (simp add: nodes_ref_def 1 2)
qed

lemma get_neighbours_eq:
  assumes ok: "grid_ok w" and v: "valid_ref w self" and n: "1 \<le> n"
  shows "get_neighbours w self n = Inr (neighbour_refs w self n)"
proof -
  have r: "row (node_at w self) = int (fst self)" and c: "column (node_at w self) = int (snd self)"
    using ok v by (simp_all add: grid_okD)
  have b: "int (fst self) < ROWS w" "int (snd self) < COLUMNS w"
    using ok v by (simp_all add: valid_ref_grid_ok)
  have up: "int (fst self) > n - 1 \<Longrightarrow>
      nodes_ref w (int (fst self) - n) (int (snd self)) = Inr (nat (int (fst self) - n), snd self)"
    using nodes_ref_in_range[OF ok, of "int (fst self) - n" "int (snd self)"] b n by simp
  have left: "int (snd self) > n - 1 \<Longrightarrow>
      nodes_ref w (int (fst self)) (int (snd self) - n) = Inr (fst self, nat (int (snd self) - n))"
    using nodes_ref_in_range[OF ok, of "int (fst self)" "int (snd self) - n"] b n by simp
  have down: "int (fst self) < ROWS w - n \<Longrightarrow>
      nodes_ref w (int (fst self) + n) (int (snd self)) = Inr (nat (int (fst self) + n), snd self)"
    using nodes_ref_in_range[OF ok, of "int (fst self) + n" "int (snd self)"] b n by simp
  have right: "int (snd self) < COLUMNS w - n \<Longrightarrow>
      nodes_ref w (int (fst self)) (int (snd self) + n) = Inr (fst self, nat (int (snd self) + n))"
    using nodes_ref_in_range[OF ok, of "int (fst self)" "int (snd self) + n"] b n by simp
  show ?thesis
    unfolding get_neighbours_def r c Let_def neighbour_refs_def
    by (simp add: append_if_def bind_err_def up left down right)
qed

lemma neighbour_refs_props:
  assumes ok: "grid_ok w" and v: "valid_ref w self" and n: "1 \<le> n"
    and m: "m \<in> set (neighbour_refs w self n)"
  shows "valid_ref w m"
    and "(snd m = snd self \<and> \<bar>int (fst m) - int (fst self)\<bar> = n) \<or>
         (fst m = fst self \<and> \<bar>int (snd m) - int (snd self)\<bar> = n)"
  using m v n unfolding valid_ref_grid_ok[OF ok] neighbour_refs_def
  by (auto split: if_splits)

lemma length_neighbour_refs: "length (neighbour_refs w self n) \<le> 4"
  by (simp add: neighbour_refs_def)

text \<open>
  C8: on a well-formed grid, for a cell of the grid and a step \<open>n \<ge> 1\<close>,
  \<open>get_neighbours\<close> raises nothing and returns at most four cells; each of them is a cell
  of the grid, with row and column inside \<open>ROWS\<close> and \<open>COLUMNS\<close> (no index wraps
  around), in the same column or the same row as the cell and exactly \<open>n\<close> away from it.
\<close>

theorem get_neighbours_in_bounds:
  assumes "grid_ok w" and "valid_ref w self" and "1 \<le> n"
  shows "\<exists>ns. get_neighbours w self n = Inr ns \<and> length ns \<le> 4 \<and>
    (\<forall>m \<in> set ns.
       valid_ref w m \<and>
       0 \<le> row (node_at w m) \<and> row (node_at w m) < ROWS w \<and>
       0 \<le> column (node_at w m) \<and> column (node_at w m) < COLUMNS w \<and>
       ((column (node_at w m) = column (node_at w self) \<and>
           \<bar>row (node_at w m) - row (node_at w self)\<bar> = n) \<or>
        (row (node_at w m) = row (node_at w self) \<and>
           \<bar>column (node_at w m) - column (node_at w self)\<bar> = n)))"
proof (intro exI conjI ballI)
  show "get_neighbours w self n = Inr (neighbour_refs w self n)"
    using assms by (rule get_neighbours_eq)
  show "length (neighbour_refs w self n) \<le> 4" by (rule length_neighbour_refs)
next
  fix m assume m: "m \<in> set (neighbour_refs w self n)"
  note p = neighbour_refs_props[OF assms m]
  have rc: "row (node_at w m) = int (fst m)" "column (node_at w m) = int (snd m)"
    "row (node_at w self) = int (fst self)" "column (node_at w self) = int (snd self)"
    using assms p(1) by (simp_all add: grid_okD)
  show "valid_ref w m" by (rule p(1))
  show "0 \<le> row (node_at w m)" by (simp add: rc)
  show "row (node_at w m) < ROWS w" using p(1) assms(1) by (simp add: rc valid_ref_grid_ok)
  show "0 \<le> column (node_at w m)" by (simp add: rc)
  show "column (node_at w m) < COLUMNS w" using p(1) assms(1) by (simp add: rc valid_ref_grid_ok)
  show "(column (node_at w m) = column (node_at w self) \<and>
           \<bar>row (node_at w m) - row (node_at w self)\<bar> = n) \<or>
        (row (node_at w m) = row (node_at w self) \<and>
           \<bar>column (node_at w m) - column (node_at w self)\<bar> = n)"
    using p(2) by (simp add: rc)
qed


theorem get_neighbours_in_bounds_witness:
  "grid_ok (initial_world 3 3) \<and> valid_ref (initial_world 3 3) (1, 1) \<and>
   (\<exists>ns. get_neighbours (initial_world 3 3) (1, 1) 1 = Inr ns \<and> length ns \<le> 4)"
proof -
  have g: "grid_ok (initial_world 3 3)" by code_simp
  have v: "valid_ref (initial_world 3 3) (1, 1)" by code_simp
  have n: "(1::int) \<le> 1" by simp
  show ?thesis using get_neighbours_in_bounds[OF g v n] g v by blast
qed

section \<open>The heuristic is left alone\<close>

lemma map_update_same: "g y = g (xs ! j) \<Longrightarrow> map g (xs[j := y]) = map g xs"
  by (metis list_update_id map_update)

lemma map_map_upd_node:
  assumes "\<And>n. g (f n) = g n"
  shows "map (map g) (nodes (upd_node r f w)) = map (map g) (nodes w)"
  unfolding upd_node_def by (simp add: map_update_same assms)

lemma h_scores_upd_node:
  "(\<And>n. h_score (f n) = h_score n) \<Longrightarrow> h_scores (upd_node r f w) = h_scores w"
  unfolding h_scores_def by (rule map_map_upd_node)

lemma upd_node_same:
  assumes "f (node_at w r) = node_at w r"
  shows "upd_node r f w = w"
  using assms by (simp add: upd_node_def node_at_def)

lemma h_scores_world_update [simp]:
  "h_scores (w\<lparr>START := a\<rparr>) = h_scores w"
  "h_scores (w\<lparr>END := b\<rparr>) = h_scores w"
  "h_scores (w\<lparr>PAUSED := c\<rparr>) = h_scores w"
  "h_scores (w\<lparr>QUICK_MODE := d\<rparr>) = h_scores w"
  "h_scores (w\<lparr>SHOW_MAZE_ANIM := e\<rparr>) = h_scores w"
  by (simp_all add: h_scores_def)

lemma h_scores_reset: "h_scores (reset r w) = h_scores w"
  by (simp add: reset_def h_scores_upd_node reset_node_def)

lemma h_scores_soft_reset: "h_scores (soft_reset r w) = h_scores w"
  by (simp add: soft_reset_def h_scores_reset)

lemma h_scores_fold:
  "(\<And>r w. h_scores (f r w) = h_scores w) \<Longrightarrow> h_scores (fold f rs w) = h_scores w"
  by (induction rs arbitrary: w) simp_all

lemma h_scores_paint: "h_scores (upd_node r (paint c) w) = h_scores w"
  by (simp add: h_scores_upd_node paint_def)

lemma h_scores_make:
  "h_scores (make_start r w) = h_scores w"
  "h_scores (make_end r w) = h_scores w"
  "h_scores (make_obstacle r w) = h_scores w"
  "h_scores (make_active r w) = h_scores w"
  "h_scores (make_visited r w) = h_scores w"
  "h_scores (make_path c r w) = h_scores w"
  by (simp_all add: make_start_def make_end_def make_obstacle_def make_active_def
      make_visited_def make_path_def h_scores_paint)

lemma h_scores_draw_screen: "h_scores (draw_screen w) = h_scores w"
  by (simp add: h_scores_def draw_screen_def draw_def comp_def)

lemma h_scores_reset_grid:
  assumes "reset_grid mode w = Inr w'"
  shows "h_scores w' = h_scores w"
proof -
  have 0: "h_scores (fold reset (all_refs (nodes w)) w) = h_scores w"
    by (rule h_scores_fold) (rule h_scores_reset)
  have 1: "h_scores (fold soft_reset (all_refs (nodes w)) w) = h_scores w"
    by (rule h_scores_fold) (rule h_scores_soft_reset)
  show ?thesis using assms 0 1
    by (auto simp: reset_grid_def Let_def h_scores_upd_node clear_end_def
        split: if_splits option.splits)
qed

lemma handle_input_running_nodes:
  "handle_input_running evs w = Some (b, w') \<Longrightarrow>
     nodes w' = nodes w \<and> START w' = START w \<and> END w' = END w \<and>
     ROWS w' = ROWS w \<and> COLUMNS w' = COLUMNS w \<and> ALG w' = ALG w"
  by (induction evs w rule: handle_input_running.induct) auto

lemma h_scores_handle_input_running:
  "handle_input_running evs w = Some (b, w') \<Longrightarrow> h_scores w' = h_scores w"
  by (simp add: h_scores_def handle_input_running_nodes)

lemma h_scores_grid_update [simp]:
  "h_scores (grid (s\<lparr>active := a\<rparr>)) = h_scores (grid s)"
  "h_scores (grid (s\<lparr>index := i\<rparr>)) = h_scores (grid s)"
  "h_scores (grid (s\<lparr>puts := p\<rparr>)) = h_scores (grid s)"
  by simp_all

lemma grid_put [simp]: "grid (put r s) = grid s"
  by (simp add: put_def)

lemma h_scores_relax: "h_scores (grid (relax c n s)) = h_scores (grid s)"
  by (simp add: relax_def Let_def h_scores_upd_node h_scores_make)

lemma h_scores_fold_relax: "h_scores (grid (fold (relax c) ns s)) = h_scores (grid s)"
  by (induction ns arbitrary: s) (simp_all add: h_scores_relax)

lemma h_scores_search_iter:
  "search_iter evs s = Inr s' \<Longrightarrow> h_scores (grid s') = h_scores (grid s)"
  by (auto simp: search_iter_def Let_def h_scores_fold_relax h_scores_make
      h_scores_draw_screen
      dest!: h_scores_handle_input_running
      split: option.splits if_splits sum.splits prod.splits)

lemma h_scores_search_iter_out:
  "search_iter evs s = Inl out \<Longrightarrow>
     (\<forall>w. out = PathFound w \<or> out = Cancelled w \<longrightarrow> h_scores w = h_scores (grid s))"
  by (auto simp: search_iter_def Let_def h_scores_draw_screen
      dest!: h_scores_handle_input_running h_scores_reset_grid
      split: option.splits if_splits sum.splits prod.splits)

section \<open>The soft reset\<close>

lemma fold_upd_node_idem:
  assumes "\<And>n. f (f n) = f n"
  shows "node_at (fold (\<lambda>r. upd_node r f) rs w) q =
     (if q \<in> set rs \<and> valid_ref w q then f (node_at w q) else node_at w q)"
  by (induction rs arbitrary: w) (auto simp: node_at_upd_node assms)

lemma fold_upd_node_fields [simp]:
  "START (fold (\<lambda>r. upd_node r f) rs w) = START w"
  "END (fold (\<lambda>r. upd_node r f) rs w) = END w"
  "all_refs (nodes (fold (\<lambda>r. upd_node r f) rs w)) = all_refs (nodes w)"
  "valid_ref (fold (\<lambda>r. upd_node r f) rs w) q = valid_ref w q"
  by (induction rs arbitrary: w) simp_all

lemma upd_node_invalid: "\<not> valid_ref w r \<Longrightarrow> upd_node r f w = w"
  by (cases "fst r < length (nodes w)")
     (simp_all add: upd_node_def valid_ref_def list_update_beyond)

lemma soft_reset_fields [simp]:
  "START (soft_reset r w) = START w"
  "END (soft_reset r w) = END w"
  "valid_ref (soft_reset r w) q = valid_ref w q"
  "all_refs (nodes (soft_reset r w)) = all_refs (nodes w)"
  by (simp_all add: soft_reset_def reset_def is_start_def is_end_def)

lemma fold_soft_reset_fields [simp]:
  "START (fold soft_reset rs w) = START w"
  "END (fold soft_reset rs w) = END w"
  "valid_ref (fold soft_reset rs w) q = valid_ref w q"
  "all_refs (nodes (fold soft_reset rs w)) = all_refs (nodes w)"
  by (induction rs arbitrary: w) simp_all

lemma soft_reset_eq:
  "soft_reset r w = (if resettable w r then upd_node r reset_node w else w)"
  by (simp add: soft_reset_def resettable_def reset_def)

lemma reset_node_idem [simp]: "reset_node (reset_node n) = reset_node n"
  by (simp add: reset_node_def)

lemma color_reset_node [simp]: "color (reset_node n) = WHITE"
  by (simp add: reset_node_def)

lemma node_at_soft_reset:
  "node_at (soft_reset r w) q =
     (if q = r \<and> valid_ref w q \<and> resettable w q then reset_node (node_at w q) else node_at w q)"
  by (auto simp: soft_reset_eq node_at_upd_node)

lemma resettable_soft_reset:
  "valid_ref w q \<Longrightarrow> resettable (soft_reset r w) q = resettable w q"
  by (auto simp: resettable_def is_start_def is_end_def is_obstacle_def node_at_soft_reset)

lemma node_at_fold_soft_reset:
  "node_at (fold soft_reset rs w) q =
     (if q \<in> set rs \<and> valid_ref w q \<and> resettable w q then reset_node (node_at w q)
      else node_at w q)"
proof (induction rs arbitrary: w)
  case Nil
  then show ?case by simp
next
  case (Cons r rs)
  show ?case
  proof (cases "valid_ref w q")
    case False
    then show ?thesis by (simp add: Cons.IH node_at_soft_reset)
  next
    case True
    then show ?thesis
      by (auto simp: Cons.IH node_at_soft_reset resettable_soft_reset)
  qed
qed

lemma fold_fixed: "(\<And>r. r \<in> set rs \<Longrightarrow> f r w = w) \<Longrightarrow> fold f rs w = w"
  by (induction rs) simp_all

lemma reset_grid_1_Some:
  "END w = Some e \<Longrightarrow>
     reset_grid 1 w = Inr (upd_node e clear_end (fold soft_reset (all_refs (nodes w)) w))"
  by (simp add: reset_grid_def Let_def)

lemma reset_grid_1_None: "END w = None \<Longrightarrow> reset_grid 1 w = Inl AttributeError"
  by (simp add: reset_grid_def Let_def)

lemma clear_end_idem [simp]: "clear_end (clear_end n) = clear_end n"
  by (simp add: clear_end_def)

lemma reset_grid_1_fixed:
  assumes e: "END w = Some e"
  defines "w1 \<equiv> fold soft_reset (all_refs (nodes w)) w"
  defines "w' \<equiv> upd_node e clear_end w1"
  shows "reset_grid 1 w' = Inr w'"
proof -
  have e': "END w' = Some e" by (simp add: w'_def w1_def e)
  have refs: "all_refs (nodes w') = all_refs (nodes w)" by (simp add: w'_def w1_def)
  have step: "soft_reset r w' = w'" if r: "r \<in> set (all_refs (nodes w))" for r
  proof (cases "resettable w' r")
    case False
    then show ?thesis by (simp add: soft_reset_eq)
  next
    case True
    have v: "valid_ref w r" using r by (simp add: valid_ref_all_refs)
    from True have ne: "r \<noteq> e" by (auto simp: resettable_def is_end_def e')
    have same: "node_at w' r = node_at w1 r" using ne by (simp add: w'_def node_at_upd_node)
    have "resettable w r"
      using True v r ne
      by (auto simp: resettable_def is_start_def is_end_def is_obstacle_def w'_def w1_def
          node_at_upd_node node_at_fold_soft_reset split: if_splits)
    then have "node_at w1 r = reset_node (node_at w r)"
      using v r by (simp add: w1_def node_at_fold_soft_reset)
    then have "reset_node (node_at w' r) = node_at w' r" by (simp add: same)
    then have "upd_node r reset_node w' = w'" by (rule upd_node_same)
    then show ?thesis using True by (simp add: soft_reset_eq)
  qed
  have "fold soft_reset (all_refs (nodes w')) w' = w'"
    unfolding refs by (rule fold_fixed) (rule step)
  moreover have "upd_node e clear_end w' = w'"
  proof (cases "valid_ref w' e")
    case True
    then have "clear_end (node_at w' e) = node_at w' e"
      by (simp add: w'_def node_at_upd_node)
    then show ?thesis by (rule upd_node_same)
  next
    case False
    then show ?thesis by (rule upd_node_invalid)
  qed
  ultimately show ?thesis by (simp add: reset_grid_1_Some[OF e'])
qed

lemma not_isl_Inr: "\<not> isl x \<Longrightarrow> \<exists>y. x = Inr y"
  by (cases x) simp_all

text \<open>
  C6: when \<open>END\<close> is set, \<open>reset_grid(1)\<close> returns, and \<open>reset_grid(1)\<close> on the state it
  leaves returns that same state: the second reset changes nothing.
\<close>

theorem reset_grid_1_idempotent:
  assumes "END w = Some e"
  shows "\<exists>w'. reset_grid 1 w = Inr w' \<and> reset_grid 1 w' = Inr w'"
  using reset_grid_1_fixed[OF assms] reset_grid_1_Some[OF assms] by simp


theorem reset_grid_1_idempotent_witness:
  "END example_world = Some (1, 1) \<and>
   (\<exists>w'. reset_grid 1 example_world = Inr w' \<and> reset_grid 1 w' = Inr w')"
proof -
  have e: "END example_world = Some (1, 1)" by code_simp
  show ?thesis using reset_grid_1_idempotent[OF e] e by simp
qed

text \<open>
  C10: \<open>reset_grid(1)\<close> reads \<open>END\<close> after its loop whatever the grid is. With \<open>END\<close>
  unset that read raises AttributeError; with \<open>END\<close> set the reset returns, \<open>END\<close> is
  still that cell, and its \<open>g_score\<close> is infinite and its parent unset.
\<close>

theorem reset_grid_1_needs_end:
  "(END w = None \<longrightarrow> reset_grid 1 w = Inl AttributeError) \<and>
   (\<forall>e. END w = Some e \<longrightarrow>
      (\<exists>w'. reset_grid 1 w = Inr w' \<and> END w' = Some e \<and>
         (valid_ref w e \<longrightarrow>
            g_score (node_at w' e) = Inf \<and> parent_node (node_at w' e) = None)))"
  by (auto simp: reset_grid_1_None reset_grid_1_Some node_at_upd_node clear_end_def)

theorem reset_grid_1_needs_end_witness:
  "reset_grid 1 (initial_world 2 2) = Inl AttributeError \<and>
   (\<exists>w'. reset_grid 1 example_world = Inr w' \<and>
      g_score (node_at w' (1, 1)) = Inf \<and> parent_node (node_at w' (1, 1)) = None)"
proof -
  have n: "END (initial_world 2 2) = None" by code_simp
  have e: "END example_world = Some (1, 1)" by code_simp
  have v: "valid_ref example_world (1, 1)" by code_simp
  show ?thesis
    using reset_grid_1_needs_end[of "initial_world 2 2"]
      reset_grid_1_needs_end[of "example_world"] n e v
    by auto
qed

section \<open>The first loop of find\_path\<close>

lemma init_node_fields:
  assumes "init_node r w = Inr w'"
  shows "END w' = END w" "START w' = START w" "valid_ref w' q = valid_ref w q"
    "ROWS w' = ROWS w" "COLUMNS w' = COLUMNS w" "ALG w' = ALG w"
    "all_refs (nodes w') = all_refs (nodes w)"
  using assms
  by (auto simp: init_node_def update_h_score_def bind_err_def split: option.splits)

lemma node_at_init_node:
  assumes "init_node r w = Inr w'" and "END w = Some e"
  shows "node_at w' q =
     (if q = r \<and> valid_ref w q
      then init_cell (row (node_at w e)) (column (node_at w e)) (node_at w q)
      else node_at w q)"
  using assms
  by (auto simp: init_node_def update_h_score_def bind_err_def node_at_upd_node init_cell_def)

lemma init_cell_simps [simp]:
  "row (init_cell a b n) = row n" "column (init_cell a b n) = column n"
  "color (init_cell a b n) = color n" "g_score (init_cell a b n) = g_score n"
  "parent_node (init_cell a b n) = None"
  "h_score (init_cell a b n) = \<bar>a - row n\<bar> + \<bar>b - column n\<bar>"
  "needs_refresh (init_cell a b n) = needs_refresh n"
  "init_cell a b (init_cell a b n) = init_cell a b n"
  by (simp_all add: init_cell_def)

lemma fold_err_init_node_fields:
  assumes "fold_err init_node rs w = Inr w'"
  shows "END w' = END w \<and> START w' = START w \<and> (\<forall>q. valid_ref w' q = valid_ref w q) \<and>
    ROWS w' = ROWS w \<and> COLUMNS w' = COLUMNS w \<and> ALG w' = ALG w \<and>
    all_refs (nodes w') = all_refs (nodes w)"
  using assms
proof (induction rs arbitrary: w)
  case Nil
  then show ?case by simp
next
  case (Cons r rs)
  then obtain w1 where 1: "init_node r w = Inr w1" and 2: "fold_err init_node rs w1 = Inr w'"
    by (auto split: sum.splits)
  show ?case using Cons.IH[OF 2] init_node_fields[OF 1] by simp
qed

lemma node_at_fold_err_init_node:
  assumes "fold_err init_node rs w = Inr w'" and "END w = Some e"
  shows "node_at w' q =
     (if q \<in> set rs \<and> valid_ref w q
      then init_cell (row (node_at w e)) (column (node_at w e)) (node_at w q)
      else node_at w q)"
  using assms
proof (induction rs arbitrary: w)
  case Nil
  then show ?case by simp
next
  case (Cons r rs)
  then obtain w1 where 1: "init_node r w = Inr w1" and 2: "fold_err init_node rs w1 = Inr w'"
    by (auto split: sum.splits)
  have e1: "END w1 = Some e" using init_node_fields(1)[OF 1] Cons.prems(2) by simp
  have rc: "row (node_at w1 e) = row (node_at w e)" "column (node_at w1 e) = column (node_at w e)"
    by (simp_all add: node_at_init_node[OF 1 Cons.prems(2)])
  show ?case
    unfolding Cons.IH[OF 2 e1] rc
    by (auto simp: node_at_init_node[OF 1 Cons.prems(2)] init_node_fields(3)[OF 1])
qed

lemma find_path_init_Inr:
  assumes "find_path_init w = Inr s"
  obtains w1 st where "fold_err init_node (all_refs (nodes w)) w = Inr w1"
    and "START w = Some st"
    and "s = put st \<lparr>grid = upd_node st (\<lambda>n. n\<lparr>g_score := Fin 0\<rparr>) w1,
                     active = [], index = 0, puts = []\<rparr>"
proof -
  from assms obtain w1 where 1: "fold_err init_node (all_refs (nodes w)) w = Inr w1"
    by (auto simp: find_path_init_def bind_err_def split: sum.splits)
  with assms obtain st where 2: "START w1 = Some st"
    and 3: "s = put st \<lparr>grid = upd_node st (\<lambda>n. n\<lparr>g_score := Fin 0\<rparr>) w1,
                     active = [], index = 0, puts = []\<rparr>"
    by (auto simp: find_path_init_def bind_err_def split: option.splits)
  from 2 fold_err_init_node_fields[OF 1] have "START w = Some st" by simp
  with 1 3 that show thesis by blast
qed

lemma node_at_find_path_init:
  assumes "find_path_init w = Inr s" and "END w = Some e" and "START w = Some st"
    and "valid_ref w q"
  shows "node_at (grid s) q =
     (if q = st
      then (init_cell (row (node_at w e)) (column (node_at w e)) (node_at w q))\<lparr>g_score := Fin 0\<rparr>
      else init_cell (row (node_at w e)) (column (node_at w e)) (node_at w q))"
proof -
  from assms(1) obtain w1 st' where 1: "fold_err init_node (all_refs (nodes w)) w = Inr w1"
    and 2: "START w = Some st'"
    and 3: "s = put st' \<lparr>grid = upd_node st' (\<lambda>n. n\<lparr>g_score := Fin 0\<rparr>) w1,
                     active = [], index = 0, puts = []\<rparr>"
    by (rule find_path_init_Inr)
  have st: "st' = st" using 2 assms(3) by simp
  have v1: "valid_ref w1 q" using fold_err_init_node_fields[OF 1] assms(4) by blast
  have q: "q \<in> set (all_refs (nodes w))" using assms(4) by (simp add: valid_ref_all_refs)
  show ?thesis
    using v1 q assms(4)
    by (auto simp: 3 st node_at_upd_node node_at_fold_err_init_node[OF 1 assms(2)])
qed


text \<open>
  C9: \<open>reset\<close> on a cell and \<open>reset_grid\<close> in any mode leave the \<open>h_score\<close> of every
  cell as it was, and so do the other operations on cells (\<open>make_start\<close>, \<open>make_end\<close>,
  \<open>make_obstacle\<close>, \<open>make_path\<close>, \<open>draw_screen\<close>) and a pass of the search loop. The
  first loop of \<open>find_path\<close> gives every cell the Manhattan distance to \<open>END\<close>.
\<close>

theorem h_score_frame:
  "h_scores (reset r w) = h_scores w \<and>
   (\<forall>mode w'. reset_grid mode w = Inr w' \<longrightarrow> h_scores w' = h_scores w) \<and>
   h_scores (make_start r w) = h_scores w \<and>
   h_scores (make_end r w) = h_scores w \<and>
   h_scores (make_obstacle r w) = h_scores w \<and>
   h_scores (make_path c r w) = h_scores w \<and>
   h_scores (draw_screen w) = h_scores w \<and>
   (\<forall>evs s'. search_iter evs s = Inr s' \<longrightarrow> h_scores (grid s') = h_scores (grid s)) \<and>
   (\<forall>s0 e q. find_path_init w = Inr s0 \<and> END w = Some e \<and> valid_ref w q \<longrightarrow>
      h_score (node_at (grid s0) q) = manhattan (node_at w e) (node_at w q))"
proof -
  have init: "h_score (node_at (grid s0) q) = manhattan (node_at w e) (node_at w q)"
    if "find_path_init w = Inr s0" "END w = Some e" "valid_ref w q" for s0 e q
  proof -
    from that(1) obtain st where "START w = Some st" by (rule find_path_init_Inr)
    from node_at_find_path_init[OF that(1,2) this that(3)] show ?thesis
      by (simp add: manhattan_def)
  qed
  show ?thesis
    using init h_scores_reset_grid h_scores_search_iter
    by (simp add: h_scores_reset h_scores_make h_scores_draw_screen)
qed


theorem h_score_frame_witness:
  "(\<exists>w'. reset_grid 1 example_world = Inr w' \<and> h_scores w' = h_scores example_world) \<and>
   (\<exists>s0. find_path_init example_world = Inr s0 \<and> h_score (node_at (grid s0) (0, 0)) = 2)"
proof -
  have e: "END example_world = Some (1, 1)" by code_simp
  have v: "valid_ref example_world (0, 0)" by code_simp
  have m: "manhattan (node_at example_world (1, 1)) (node_at example_world (0, 0)) = 2" by code_simp
  have "\<not> isl (find_path_init example_world)" by code_simp
  then obtain s0 where s0: "find_path_init example_world = Inr s0" using not_isl_Inr by blast
  obtain w' where w': "reset_grid 1 example_world = Inr w'" using reset_grid_1_Some[OF e] by blast
  show ?thesis
    using h_score_frame[of "(0, 0)" "example_world" GREY undefined] e v m s0 w' by metis
qed

section \<open>Cancelling a search\<close>

lemma handle_input_running_cancel:
  "KEYDOWN K_BACKSPACE \<in> set evs \<Longrightarrow> QUIT \<notin> set evs \<Longrightarrow>
     \<exists>w1. handle_input_running evs w = Some (True, w1)"
  by (induction evs w rule: handle_input_running.induct) auto


text \<open>
  C7: in a pass of the search loop whose poll holds the cancel key (and no quit event),
  \<open>handle_input_running\<close> reports the cancellation; it has changed no cell and neither
  \<open>START\<close> nor \<open>END\<close>. With \<open>END\<close> set, that pass ends the search as \<open>Cancelled\<close>, and
  the state it leaves is the result of \<open>reset_grid(1)\<close> on the state at the cancellation.
\<close>

theorem cancel_resets:
  assumes "active s \<noteq> []"
    and "KEYDOWN K_BACKSPACE \<in> set evs" and "QUIT \<notin> set evs"
    and "END (grid s) = Some e"
  shows "\<exists>w1 w2. handle_input_running evs (grid s) = Some (True, w1) \<and>
           nodes w1 = nodes (grid s) \<and> START w1 = START (grid s) \<and> END w1 = END (grid s) \<and>
           reset_grid 1 w1 = Inr w2 \<and>
           search_iter evs s = Inl (Cancelled w2) \<and>
           find_path_loop (evs # polls) s = Cancelled w2"
proof -
  from handle_input_running_cancel[OF assms(2,3)]
  obtain w1 where 1: "handle_input_running evs (grid s) = Some (True, w1)" by blast
  note f = handle_input_running_nodes[OF 1]
  have "END w1 = Some e" using f assms(4) by simp
  then obtain w2 where 2: "reset_grid 1 w1 = Inr w2" by (simp add: reset_grid_1_Some)
  have 3: "search_iter evs s = Inl (Cancelled w2)" by (simp add: search_iter_def 1 2)
  show ?thesis using 1 2 3 f assms(1) by simp
qed

theorem cancel_resets_witness:
  "\<exists>w2. find_path [[], [KEYDOWN K_BACKSPACE]] example_world = Cancelled w2"
proof -
  let ?s1 = "projr (search_iter [] (projr (find_path_init example_world)))"
  have a1: "active ?s1 \<noteq> []" by code_simp
  have e1: "END (grid ?s1) = Some (1, 1)" by code_simp
  have k: "KEYDOWN K_BACKSPACE \<in> set [KEYDOWN K_BACKSPACE]" "QUIT \<notin> set [KEYDOWN K_BACKSPACE]"
    by simp_all
  have f: "find_path [[], [KEYDOWN K_BACKSPACE]] example_world =
      find_path_loop [[KEYDOWN K_BACKSPACE]] ?s1"
    by code_simp
  from cancel_resets[OF a1 k e1, of "[]"] show ?thesis
    unfolding f by blast
qed

section \<open>The scenario of a free grid of five rows and five columns\<close>

lemma find_path_loop_append:
  "\<not> is_pending (find_path_loop polls s) \<Longrightarrow>
     find_path_loop (polls @ rest) s = find_path_loop polls s"
proof (induction polls arbitrary: s)
  case Nil
  then show ?case by (cases rest) (auto split: if_splits)
next
  case (Cons evs polls)
  then show ?case by (auto split: if_splits sum.splits)
qed

lemma find_path_append:
  "\<not> is_pending (find_path polls w) \<Longrightarrow> find_path (polls @ rest) w = find_path polls w"
  by (auto simp: find_path_def find_path_loop_append split: sum.splits)

lemma found_world_Some: "found_world out = Some w \<Longrightarrow> out = PathFound w"
  by (cases out) simp_all

lemma five_alg:
  assumes "map_option (\<lambda>w. (END w, g_score (node_at w (4, 4))))
      (found_world (find_path (replicate 25 []) W)) = Some (Some (4, 4), Fin 8)"
  shows "\<exists>w'. find_path (replicate 25 [] @ rest) W = PathFound w' \<and>
     END w' = Some (4, 4) \<and> g_score (node_at w' (4, 4)) = Fin 8"
proof -
  from assms obtain w' where w': "found_world (find_path (replicate 25 []) W) = Some w'"
    and p: "END w' = Some (4, 4)" "g_score (node_at w' (4, 4)) = Fin 8"
    by auto
  from w' have f: "find_path (replicate 25 []) W = PathFound w'" by (rule found_world_Some)
  have "\<not> is_pending (find_path (replicate 25 []) W)" unfolding f by simp
  then have "find_path (replicate 25 [] @ rest) W = find_path (replicate 25 []) W"
    by (rule find_path_append)
  then have "find_path (replicate 25 [] @ rest) W = PathFound w'"
    unfolding f .
  with p show ?thesis by blast
qed

text \<open>
  C4: on the grid of five rows and five columns without obstacles, Start at (0, 0) and End at
  (4, 4), with no input events, each of the three algorithms leaves the loop with a path
  found within 25 passes, whatever polls come after, and the \<open>g_score\<close> of End, which
  \<open>find_path\<close> reports as the length, is 8.
\<close>

theorem five_by_five_length_8:
  "\<exists>w'. find_path (replicate 25 [] @ rest) (scenario 5 5 a (0, 0) (4, 4) []) = PathFound w' \<and>
     END w' = Some (4, 4) \<and> g_score (node_at w' (4, 4)) = Fin 8"
proof (cases a)
  case A_STAR
  have "map_option (\<lambda>w. (END w, g_score (node_at w (4, 4))))
      (found_world (find_path (replicate 25 []) (scenario 5 5 A_STAR (0, 0) (4, 4) [])))
      = Some (Some (4, 4), Fin 8)"
    by code_simp
  then show ?thesis unfolding A_STAR by (rule five_alg)
next
  case DJIKSTRA
  have "map_option (\<lambda>w. (END w, g_score (node_at w (4, 4))))
      (found_world (find_path (replicate 25 []) (scenario 5 5 DJIKSTRA (0, 0) (4, 4) [])))
      = Some (Some (4, 4), Fin 8)"
    by code_simp
  then show ?thesis unfolding DJIKSTRA by (rule five_alg)
next
  case GREEDY
  have "map_option (\<lambda>w. (END w, g_score (node_at w (4, 4))))
      (found_world (find_path (replicate 25 []) (scenario 5 5 GREEDY (0, 0) (4, 4) [])))
      = Some (Some (4, 4), Fin 8)"
    by code_simp
  then show ?thesis unfolding GREEDY by (rule five_alg)
qed


theorem five_by_five_length_8_witness:
  "\<exists>w'. find_path (replicate 25 []) (scenario 5 5 GREEDY (0, 0) (4, 4) []) = PathFound w' \<and>
     END w' = Some (4, 4) \<and> g_score (node_at w' (4, 4)) = Fin 8"
  using five_by_five_length_8[of "[]" GREEDY] by simp

section \<open>The range of the g scores in a search\<close>

lemma g_ok_iff: "g_ok w \<longleftrightarrow> (\<forall>r. valid_ref w r \<longrightarrow> g_nonneg (g_score (node_at w r)))"
  by (auto simp: g_ok_def list_all_iff valid_ref_all_refs)

lemma g_okD: "g_ok w \<Longrightarrow> valid_ref w r \<Longrightarrow> g_nonneg (g_score (node_at w r))"
  by (simp add: g_ok_def list_all_iff valid_ref_all_refs)

lemma g_okI: "(\<And>r. valid_ref w r \<Longrightarrow> g_nonneg (g_score (node_at w r))) \<Longrightarrow> g_ok w"
  by (simp add: g_ok_def list_all_iff valid_ref_all_refs)

lemma upd_node_upd_node: "upd_node r f (upd_node r g w) = upd_node r (f \<circ> g) w"
proof (cases "valid_ref w r")
  case False
  then show ?thesis by (simp add: upd_node_invalid)
next
  case True
  then show ?thesis by (simp add: upd_node_def valid_ref_def)
qed

lemma upd_node_id: "upd_node r id w = w"
  by (rule upd_node_same) simp

lemma relax_not_improves: "\<not> improves (grid s) c n \<Longrightarrow> relax c n s = s"
  by (auto simp: relax_def improves_def Let_def)

lemma relax_invalid: "\<not> valid_ref (grid s) n \<Longrightarrow> grid (relax c n s) = grid s"
  by (simp add: relax_def Let_def upd_node_invalid make_active_def)

lemma relax_grid:
  assumes "improves (grid s) c n" "valid_ref (grid s) n"
  shows "grid (relax c n s) = upd_node n (relaxed (grid s) c n) (grid s)"
proof -
  let ?w = "grid s"
  let ?g = "num_add (g_score (node_at ?w c)) 1"
  let ?w2 = "upd_node n (\<lambda>x. x\<lparr>parent_node := Some c\<rparr>) (upd_node n (\<lambda>x. x\<lparr>g_score := ?g\<rparr>) ?w)"
  have col: "color (node_at ?w2 n) = color (node_at ?w n)"
    using assms(2) by (simp add: node_at_upd_node)
  have e: "(\<not> is_active ?w2 n \<and> \<not> is_visited ?w2 n) = enqueues ?w n"
    by (auto simp: is_active_def is_visited_def enqueues_def col is_start_def)
  show ?thesis
  proof (cases "enqueues ?w n")
    case True
    have ye: "\<not> is_active ?w2 n \<and> \<not> is_visited ?w2 n" using True e by blast
    have "grid (relax c n s) = make_active n ?w2"
      using assms(1) unfolding relax_def improves_def Let_def if_P[OF ye] by (simp add: put_def)
    also have "\<dots> = upd_node n (relaxed ?w c n) ?w"
    proof -
      have "relaxed ?w c n = paint GREEN \<circ> ((\<lambda>x. x\<lparr>parent_node := Some c\<rparr>) \<circ> (\<lambda>x. x\<lparr>g_score := ?g\<rparr>))"
        using True by (intro ext) (simp add: relaxed_def paint_def)
      then show ?thesis by (simp add: make_active_def upd_node_upd_node)
    qed
    finally show ?thesis .
  next
    case False
    have ne: "\<not> (\<not> is_active ?w2 n \<and> \<not> is_visited ?w2 n)" using False e by blast
    have "grid (relax c n s) = ?w2"
      using assms(1) unfolding relax_def improves_def Let_def if_not_P[OF ne] by simp
    also have "\<dots> = upd_node n (relaxed ?w c n) ?w"
    proof -
      have "relaxed ?w c n = (\<lambda>x. x\<lparr>parent_node := Some c\<rparr>) \<circ> (\<lambda>x. x\<lparr>g_score := ?g\<rparr>)"
        using False by (intro ext) (simp add: relaxed_def)
      then show ?thesis by (simp add: upd_node_upd_node)
    qed
    finally show ?thesis .
  qed
qed

lemma relax_queue:
  "(active (relax c n s) = active s \<and> index (relax c n s) = index s \<and>
    puts (relax c n s) = puts s) \<or>
   (\<exists>sc. improves (grid s) c n \<and> enqueues (grid s) n \<and>
      active (relax c n s) = active s @ [(sc, index s, n)] \<and>
      puts (relax c n s) = puts s @ [(sc, index s, n)] \<and>
      index (relax c n s) = index s + 1)"
proof (cases "improves (grid s) c n")
  case False
  then show ?thesis by (simp add: relax_not_improves)
next
  case True
  let ?w = "grid s"
  let ?g = "num_add (g_score (node_at ?w c)) 1"
  let ?w2 = "upd_node n (\<lambda>x. x\<lparr>parent_node := Some c\<rparr>) (upd_node n (\<lambda>x. x\<lparr>g_score := ?g\<rparr>) ?w)"
  have col: "color (node_at ?w2 n) = color (node_at ?w n)"
    by (simp add: node_at_upd_node)
  have e: "(\<not> is_active ?w2 n \<and> \<not> is_visited ?w2 n) = enqueues ?w n"
    by (auto simp: is_active_def is_visited_def enqueues_def col is_start_def)
  show ?thesis
  proof (cases "enqueues ?w n")
    case yes: True
    have ye: "\<not> is_active ?w2 n \<and> \<not> is_visited ?w2 n" using yes e by blast
    show ?thesis
      using True yes unfolding relax_def improves_def Let_def if_P[OF ye]
      by (simp add: put_def)
  next
    case no: False
    have ne: "\<not> (\<not> is_active ?w2 n \<and> \<not> is_visited ?w2 n)" using no e by blast
    show ?thesis
      using True unfolding relax_def improves_def Let_def if_not_P[OF ne] by simp
  qed
qed

lemma num_less_trans: "num_less a b \<Longrightarrow> num_less b c \<Longrightarrow> num_less a c"
  by (cases a; cases b; cases c) simp_all

lemma num_less_irrefl [simp]: "\<not> num_less a a"
  by (cases a) simp_all

lemma g_le_refl [simp]: "g_le a a"
  by (simp add: g_le_def)

lemma g_le_trans: "g_le a b \<Longrightarrow> g_le b c \<Longrightarrow> g_le a c"
  by (auto simp: g_le_def dest: num_less_trans)

lemma search_iter_InrE:
  assumes "search_iter evs s = Inr s'"
  obtains (paused) w1 where "handle_input_running evs (grid s) = Some (False, w1)"
      and "PAUSED w1" and "s' = s\<lparr>grid := w1\<rparr>"
  | (expand) w1 nbs where "handle_input_running evs (grid s) = Some (False, w1)"
      and "\<not> PAUSED w1" and "END (shown w1) \<noteq> Some (current_of s)"
      and "get_neighbours (make_visited (current_of s) (shown w1)) (current_of s) 1 = Inr nbs"
      and "s' = fold (relax (current_of s)) nbs
             (s\<lparr>grid := make_visited (current_of s) (shown w1),
                active := snd (pq_get (active s))\<rparr>)"
proof -
  from assms obtain b w1 where h: "handle_input_running evs (grid s) = Some (b, w1)"
    by (auto simp: search_iter_def split: option.splits)
  have nb: "\<not> b" using assms h by (auto simp: search_iter_def split: sum.splits)
  show thesis
  proof (cases "PAUSED w1")
    case True
    then have "s' = s\<lparr>grid := w1\<rparr>" using assms h nb by (simp add: search_iter_def)
    with h nb True paused show ?thesis by simp
  next
    case False
    let ?c = "current_of s"
    from assms h nb False have ne: "END (shown w1) \<noteq> Some ?c"
      by (auto simp: search_iter_def Let_def shown_def current_of_def split: if_splits)
    from assms h nb False ne obtain nbs
      where n: "get_neighbours (make_visited ?c (shown w1)) ?c 1 = Inr nbs"
      by (auto simp: search_iter_def Let_def shown_def current_of_def
          split: if_splits sum.splits)
    from assms h nb False ne n
    have "s' = fold (relax ?c) nbs
             (s\<lparr>grid := make_visited ?c (shown w1), active := snd (pq_get (active s))\<rparr>)"
      by (auto simp: search_iter_def Let_def shown_def current_of_def
          split: if_splits sum.splits)
    with h nb False ne n expand show ?thesis by simp
  qed
qed

lemma valid_ref_draw_screen [simp]: "valid_ref (draw_screen w) q = valid_ref w q"
  by (cases "fst q < length (nodes w)") (simp_all add: valid_ref_def draw_screen_def)

lemma node_at_draw_screen:
  "valid_ref w q \<Longrightarrow> node_at (draw_screen w) q = draw (node_at w q)"
  by (simp add: node_at_def draw_screen_def valid_ref_def)

lemma draw_fields [simp]:
  "g_score (draw n) = g_score n" "parent_node (draw n) = parent_node n"
  "color (draw n) = color n" "row (draw n) = row n" "column (draw n) = column n"
  "h_score (draw n) = h_score n"
  by (simp_all add: draw_def)

lemma draw_screen_fields [simp]:
  "START (draw_screen w) = START w" "END (draw_screen w) = END w"
  "ROWS (draw_screen w) = ROWS w" "COLUMNS (draw_screen w) = COLUMNS w"
  "ALG (draw_screen w) = ALG w"
  by (simp_all add: draw_screen_def)

lemma shown_fields [simp]:
  "START (shown w) = START w" "END (shown w) = END w"
  "ROWS (shown w) = ROWS w" "COLUMNS (shown w) = COLUMNS w" "ALG (shown w) = ALG w"
  "valid_ref (shown w) q = valid_ref w q"
  by (simp_all add: shown_def)

lemma node_at_shown:
  assumes "valid_ref w q"
  shows "g_score (node_at (shown w) q) = g_score (node_at w q)"
    "parent_node (node_at (shown w) q) = parent_node (node_at w q)"
    "color (node_at (shown w) q) = color (node_at w q)"
    "row (node_at (shown w) q) = row (node_at w q)"
    "column (node_at (shown w) q) = column (node_at w q)"
  using assms by (simp_all add: shown_def node_at_draw_screen)

lemma paint_fields [simp]:
  "g_score (paint c n) = g_score n" "parent_node (paint c n) = parent_node n"
  "color (paint c n) = c" "row (paint c n) = row n" "column (paint c n) = column n"
  "h_score (paint c n) = h_score n"
  by (simp_all add: paint_def)

lemma make_visited_fields [simp]:
  "START (make_visited c w) = START w" "END (make_visited c w) = END w"
  "ROWS (make_visited c w) = ROWS w" "COLUMNS (make_visited c w) = COLUMNS w"
  "ALG (make_visited c w) = ALG w"
  "valid_ref (make_visited c w) q = valid_ref w q"
  by (simp_all add: make_visited_def)

lemma node_at_make_visited:
  "g_score (node_at (make_visited c w) q) = g_score (node_at w q)"
  "parent_node (node_at (make_visited c w) q) = parent_node (node_at w q)"
  "row (node_at (make_visited c w) q) = row (node_at w q)"
  "column (node_at (make_visited c w) q) = column (node_at w q)"
  "color (node_at (make_visited c w) q) = GREY \<Longrightarrow> color (node_at w q) = GREY"
  by (auto simp: make_visited_def node_at_upd_node split: if_splits)

lemma handle_input_running_node_at:
  "handle_input_running evs w = Some (b, w') \<Longrightarrow> node_at w' q = node_at w q"
  "handle_input_running evs w = Some (b, w') \<Longrightarrow> valid_ref w' q = valid_ref w q"
  by (simp_all add: node_at_def valid_ref_def handle_input_running_nodes)

lemma relax_fields [simp]:
  "START (grid (relax c n s)) = START (grid s)" "END (grid (relax c n s)) = END (grid s)"
  "ROWS (grid (relax c n s)) = ROWS (grid s)" "COLUMNS (grid (relax c n s)) = COLUMNS (grid s)"
  "ALG (grid (relax c n s)) = ALG (grid s)"
  "valid_ref (grid (relax c n s)) q = valid_ref (grid s) q"
  by (simp_all add: relax_def Let_def make_active_def)

lemma node_at_relax:
  "node_at (grid (relax c n s)) q =
     (if q = n \<and> valid_ref (grid s) n \<and> improves (grid s) c n
      then relaxed (grid s) c n (node_at (grid s) n) else node_at (grid s) q)"
proof (cases "improves (grid s) c n")
  case False
  then show ?thesis by (simp add: relax_not_improves)
next
  case True
  show ?thesis
  proof (cases "valid_ref (grid s) n")
    case False
    then show ?thesis by (simp add: relax_invalid)
  next
    case v: True
    show ?thesis by (simp add: relax_grid[OF True v] node_at_upd_node v True)
  qed
qed

lemma g_score_relaxed [simp]:
  "g_score (relaxed w c n x) = num_add (g_score (node_at w c)) 1"
  by (simp add: relaxed_def)

lemma g_score_relax:
  assumes "valid_ref (grid s) r"
  shows "g_score (node_at (grid (relax c n s)) r) = g_score (node_at (grid s) r) \<or>
     (r = n \<and> num_less (g_score (node_at (grid (relax c n s)) r)) (g_score (node_at (grid s) r)))"
  by (auto simp: node_at_relax improves_def)

lemma g_nonneg_num_add: "g_nonneg a \<Longrightarrow> g_nonneg (num_add a 1)"
  by (cases a) simp_all

lemma g_ok_relax:
  assumes "g_ok (grid s)" and "valid_ref (grid s) c \<or> \<not> improves (grid s) c n"
  shows "g_ok (grid (relax c n s))"
proof (rule g_okI)
  fix r assume "valid_ref (grid (relax c n s)) r"
  then have r: "valid_ref (grid s) r" by simp
  then have gr: "g_nonneg (g_score (node_at (grid s) r))" using assms(1) by (simp add: g_okD)
  show "g_nonneg (g_score (node_at (grid (relax c n s)) r))"
  proof (cases "r = n \<and> valid_ref (grid s) n \<and> improves (grid s) c n")
    case True
    then have "valid_ref (grid s) c" using assms(2) by blast
    then have "g_nonneg (g_score (node_at (grid s) c))" using assms(1) by (simp add: g_okD)
    then show ?thesis using True by (simp add: node_at_relax g_nonneg_num_add)
  next
    case False
    then show ?thesis using gr by (auto simp: node_at_relax)
  qed
qed

lemma py_index_Inr: "py_index len i = Inr a \<Longrightarrow> a < len"
  by (auto simp: py_index_def Let_def split: if_splits)

lemma nodes_ref_valid: "nodes_ref w i j = Inr r \<Longrightarrow> valid_ref w r"
  by (auto simp: nodes_ref_def valid_ref_def split: sum.splits dest: py_index_Inr)

lemma append_if_valid:
  "append_if b x acc = Inr ns \<Longrightarrow> (\<And>r. x = Inr r \<Longrightarrow> P r) \<Longrightarrow> \<forall>m\<in>set acc. P m \<Longrightarrow>
     \<forall>m\<in>set ns. P m"
  by (auto simp: append_if_def split: if_splits sum.splits)

lemma get_neighbours_valid:
  assumes "get_neighbours w c n = Inr nbs" and "m \<in> set nbs"
  shows "valid_ref w m"
proof -
  let ?r = "row (node_at w c)" and ?c = "column (node_at w c)"
  from assms(1) obtain a1 a2 a3 where
    1: "append_if (?r > n - 1) (nodes_ref w (?r - n) ?c) [] = Inr a1" and
    2: "append_if (?c > n - 1) (nodes_ref w ?r (?c - n)) a1 = Inr a2" and
    3: "append_if (?r < ROWS w - n) (nodes_ref w (?r + n) ?c) a2 = Inr a3" and
    4: "append_if (?c < COLUMNS w - n) (nodes_ref w ?r (?c + n)) a3 = Inr nbs"
    by (auto simp: get_neighbours_def Let_def bind_err_def split: sum.splits)
  have v1: "\<forall>m\<in>set a1. valid_ref w m"
    by (rule append_if_valid[OF 1]) (auto dest: nodes_ref_valid)
  have v2: "\<forall>m\<in>set a2. valid_ref w m"
    by (rule append_if_valid[OF 2]) (auto dest: nodes_ref_valid simp: v1)
  have v3: "\<forall>m\<in>set a3. valid_ref w m"
    by (rule append_if_valid[OF 3]) (auto dest: nodes_ref_valid simp: v2)
  have "\<forall>m\<in>set nbs. valid_ref w m"
    by (rule append_if_valid[OF 4]) (auto dest: nodes_ref_valid simp: v3)
  with assms(2) show ?thesis by blast
qed

lemma pq_min_mem: "pq_min m es \<in> set (m # es)"
  by (induction es arbitrary: m) auto

lemma pq_get_mem: "q \<noteq> [] \<Longrightarrow> fst (pq_get q) \<in> set q"
  using pq_min_mem[of "hd q" "tl q"] by (cases q) (simp_all add: pq_get_def Let_def)

lemma pq_get_rest: "set (snd (pq_get q)) \<subseteq> set q"
  by (simp add: pq_get_def Let_def set_remove1_subset)

lemma queue_valid_relax:
  assumes "queue_valid s" and "valid_ref (grid s) n"
  shows "queue_valid (relax c n s)"
  using assms relax_queue[of c n s] by (auto simp: queue_valid_def)

lemma fold_relax_fields [simp]:
  "START (grid (fold (relax c) nbs s)) = START (grid s)"
  "END (grid (fold (relax c) nbs s)) = END (grid s)"
  "ROWS (grid (fold (relax c) nbs s)) = ROWS (grid s)"
  "COLUMNS (grid (fold (relax c) nbs s)) = COLUMNS (grid s)"
  "ALG (grid (fold (relax c) nbs s)) = ALG (grid s)"
  "valid_ref (grid (fold (relax c) nbs s)) q = valid_ref (grid s) q"
  by (induction nbs arbitrary: s) simp_all

lemma fold_relax_g:
  assumes "valid_ref (grid s) c" and "\<forall>m\<in>set nbs. valid_ref (grid s) m"
    and "g_ok (grid s)" and "queue_valid s"
  shows "g_ok (grid (fold (relax c) nbs s)) \<and> queue_valid (fold (relax c) nbs s) \<and>
    (\<forall>r. valid_ref (grid s) r \<longrightarrow>
       g_le (g_score (node_at (grid (fold (relax c) nbs s)) r)) (g_score (node_at (grid s) r)))"
  using assms
proof (induction nbs arbitrary: s)
  case Nil
  then show ?case by simp
next
  case (Cons n nbs)
  let ?s1 = "relax c n s"
  have 1: "g_ok (grid ?s1)" using Cons.prems by (simp add: g_ok_relax)
  have 2: "queue_valid ?s1" using Cons.prems by (simp add: queue_valid_relax)
  have 3: "valid_ref (grid ?s1) c" "\<forall>m\<in>set nbs. valid_ref (grid ?s1) m"
    using Cons.prems by simp_all
  note ih = Cons.IH[OF 3 1 2]
  have step: "g_le (g_score (node_at (grid ?s1) r)) (g_score (node_at (grid s) r))"
    if "valid_ref (grid s) r" for r
    using g_score_relax[OF that, of c n] by (auto simp: g_le_def)
  have "g_le (g_score (node_at (grid (fold (relax c) nbs ?s1)) r)) (g_score (node_at (grid s) r))"
    if r: "valid_ref (grid s) r" for r
  proof -
    have "valid_ref (grid ?s1) r" using r by simp
    then have "g_le (g_score (node_at (grid (fold (relax c) nbs ?s1)) r))
        (g_score (node_at (grid ?s1) r))"
      using ih by blast
    then show ?thesis using step[OF r] by (rule g_le_trans)
  qed
  then show ?case using ih by simp
qed

lemma g_ok_cong:
  assumes "\<And>r. valid_ref w' r = valid_ref w r"
    and "\<And>r. valid_ref w r \<Longrightarrow> g_score (node_at w' r) = g_score (node_at w r)"
  shows "g_ok w' = g_ok w"
  using assms by (simp add: g_ok_iff)

lemma search_iter_g:
  assumes "search_iter evs s = Inr s'" and "g_inv s" and "active s \<noteq> []"
  shows "g_inv s' \<and>
    (\<forall>r. valid_ref (grid s) r \<longrightarrow>
       g_le (g_score (node_at (grid s') r)) (g_score (node_at (grid s) r))) \<and>
    (\<forall>r. valid_ref (grid s') r = valid_ref (grid s) r)"
  using assms(1)
proof (cases rule: search_iter_InrE)
  case (paused w1)
  note h = handle_input_running_node_at[OF paused(1)]
  have "g_ok w1 = g_ok (grid s)" by (rule g_ok_cong) (simp_all add: h(1) h(2))
  then show ?thesis using assms(2) by (simp add: paused(3) g_inv_def queue_valid_def h)
next
  case (expand w1 nbs)
  note h = handle_input_running_node_at[OF expand(1)]
  let ?c = "current_of s"
  let ?w3 = "make_visited ?c (shown w1)"
  let ?s3 = "s\<lparr>grid := ?w3, active := snd (pq_get (active s))\<rparr>"
  have v: "valid_ref ?w3 r = valid_ref (grid s) r" for r using h(2)[of r] by simp
  have g: "g_score (node_at ?w3 r) = g_score (node_at (grid s) r)" if "valid_ref (grid s) r" for r
    using that by (simp add: node_at_make_visited node_at_shown h)
  have ok3: "g_ok ?w3 = g_ok (grid s)" by (rule g_ok_cong[OF v g])
  have cin: "fst (pq_get (active s)) \<in> set (active s)" using assms(3) by (rule pq_get_mem)
  then have cv: "valid_ref (grid s) ?c" using assms(2)
    by (auto simp: g_inv_def queue_valid_def current_of_def)
  have q3: "queue_valid ?s3"
    using assms(2) pq_get_rest[of "active s"] by (auto simp: g_inv_def queue_valid_def h(2))
  have nv: "\<forall>m\<in>set nbs. valid_ref (grid ?s3) m"
    using get_neighbours_valid[OF expand(4)] by simp
  have "g_ok (grid ?s3)" using ok3 assms(2) by (simp add: g_inv_def)
  from fold_relax_g[OF _ nv this q3, of ?c] cv
  show ?thesis unfolding expand(5) g_inv_def by (simp add: h(2) g)
qed

lemma fold_err_init_node_END:
  "fold_err init_node rs w = Inr w' \<Longrightarrow> rs \<noteq> [] \<Longrightarrow> \<exists>e. END w = Some e"
  by (cases rs)
     (auto simp: init_node_def update_h_score_def bind_err_def split: option.splits sum.splits)

lemma find_path_init_END:
  assumes "find_path_init w = Inr s" and "valid_ref w q"
  shows "\<exists>e. END w = Some e"
proof -
  from assms(1) obtain w1 where 1: "fold_err init_node (all_refs (nodes w)) w = Inr w1"
    by (auto simp: find_path_init_def bind_err_def split: sum.splits)
  have "all_refs (nodes w) \<noteq> []" using assms(2) by (auto simp: valid_ref_all_refs)
  with 1 show ?thesis by (rule fold_err_init_node_END)
qed

lemma find_path_init_fields:
  assumes "find_path_init w = Inr s"
  shows "START (grid s) = START w" "END (grid s) = END w" "ROWS (grid s) = ROWS w"
    "COLUMNS (grid s) = COLUMNS w" "ALG (grid s) = ALG w"
    "valid_ref (grid s) q = valid_ref w q"
proof -
  from assms obtain w1 st where 1: "fold_err init_node (all_refs (nodes w)) w = Inr w1"
    and 3: "s = put st \<lparr>grid = upd_node st (\<lambda>n. n\<lparr>g_score := Fin 0\<rparr>) w1,
                     active = [], index = 0, puts = []\<rparr>"
    by (rule find_path_init_Inr)
  note f = fold_err_init_node_fields[OF 1]
  show "START (grid s) = START w" "END (grid s) = END w" "ROWS (grid s) = ROWS w"
    "COLUMNS (grid s) = COLUMNS w" "ALG (grid s) = ALG w"
    using f by (simp_all add: 3)
  have "valid_ref w1 q = valid_ref w q" using f by blast
  then show "valid_ref (grid s) q = valid_ref w q" by (simp add: 3)
qed

lemma find_path_init_queue:
  assumes "find_path_init w = Inr s" and "START w = Some st"
  shows "\<exists>sc. active s = [(sc, 0, st)] \<and> puts s = [(sc, 0, st)] \<and> index s = 0"
proof -
  from assms(1) obtain w1 st' where 2: "START w = Some st'"
    and 3: "s = put st' \<lparr>grid = upd_node st' (\<lambda>n. n\<lparr>g_score := Fin 0\<rparr>) w1,
                     active = [], index = 0, puts = []\<rparr>"
    by (rule find_path_init_Inr)
  show ?thesis using 2 assms(2) by (simp add: 3 put_def)
qed

lemma g_score_find_path_init:
  assumes "find_path_init w = Inr s" and "START w = Some st" and "valid_ref w q"
  shows "g_score (node_at (grid s) q) = (if q = st then Fin 0 else g_score (node_at w q))"
proof -
  from find_path_init_END[OF assms(1,3)] obtain e where e: "END w = Some e" by blast
  show ?thesis by (simp add: node_at_find_path_init[OF assms(1) e assms(2,3)])
qed

lemma g_le_zero: "g_nonneg a \<Longrightarrow> g_le (Fin 0) a"
  by (cases a) (auto simp: g_le_def)

lemma find_path_init_g:
  assumes "find_path_init w = Inr s" and "START w = Some st" and "valid_ref w st" and "g_ok w"
  shows "g_inv s"
    and "valid_ref w r \<Longrightarrow> g_le (g_score (node_at (grid s) r)) (g_score (node_at w r))"
proof -
  note g = g_score_find_path_init[OF assms(1,2)]
  note f = find_path_init_fields[OF assms(1)]
  have "g_ok (grid s)"
  proof (rule g_okI)
    fix r assume "valid_ref (grid s) r"
    then have r: "valid_ref w r" by (simp add: f)
    then show "g_nonneg (g_score (node_at (grid s) r))"
      using g_okD[OF assms(4) r] by (simp add: g)
  qed
  moreover have "queue_valid s"
    using find_path_init_queue[OF assms(1,2)] assms(3) by (auto simp: queue_valid_def f)
  ultimately show "g_inv s" by (simp add: g_inv_def)
  show "g_le (g_score (node_at (grid s) r)) (g_score (node_at w r))" if r: "valid_ref w r"
    using g_okD[OF assms(4) r] by (auto simp: g[OF r] g_le_zero)
qed

lemma run_iters_g:
  assumes "run_iters polls s0 = Some s" and "g_inv s0"
  shows "g_inv s \<and>
    (\<forall>r. valid_ref (grid s0) r \<longrightarrow>
       g_le (g_score (node_at (grid s) r)) (g_score (node_at (grid s0) r))) \<and>
    (\<forall>r. valid_ref (grid s) r = valid_ref (grid s0) r)"
  using assms
proof (induction polls arbitrary: s0)
  case Nil
  then show ?case by simp
next
  case (Cons evs polls)
  from Cons.prems(1) obtain s1 where a: "active s0 \<noteq> []"
    and 1: "search_iter evs s0 = Inr s1" and 2: "run_iters polls s1 = Some s"
    by (auto split: if_splits sum.splits)
  note p = search_iter_g[OF 1 Cons.prems(2) a]
  note ih = Cons.IH[OF 2 p[THEN conjunct1]]
  have v: "valid_ref (grid s) r = valid_ref (grid s0) r" for r
    using ih p by blast
  have "g_le (g_score (node_at (grid s) r)) (g_score (node_at (grid s0) r))"
    if r: "valid_ref (grid s0) r" for r
  proof -
    have "valid_ref (grid s1) r" using p r by blast
    then have "g_le (g_score (node_at (grid s) r)) (g_score (node_at (grid s1) r))"
      using ih by blast
    moreover have "g_le (g_score (node_at (grid s1) r)) (g_score (node_at (grid s0) r))"
      using p r by blast
    ultimately show ?thesis by (rule g_le_trans)
  qed
  then show ?case using ih v by blast
qed

text \<open>
  C5: let every \<open>g_score\<close> be infinite or at least 0 when \<open>find_path\<close> is called with
  Start a cell of the grid. Then this holds again after the initialisation and after every
  pass of the loop, and no cell's \<open>g_score\<close> is greater after the initialisation than
  before, or after a pass than after the initialisation. In any state of that kind a
  relaxation from a cell of the grid keeps the range, and the one assignment to a
  \<open>g_score\<close> the loop makes (in a relaxation, to the neighbour) makes it strictly smaller.
\<close>

theorem g_score_range_and_descent:
  assumes "g_ok w" and "START w = Some st" and "valid_ref w st"
    and "find_path_init w = Inr s0" and "run_iters polls s0 = Some s"
  shows "g_ok (grid s0) \<and> g_ok (grid s) \<and>
    (\<forall>r. valid_ref w r \<longrightarrow>
       g_le (g_score (node_at (grid s0) r)) (g_score (node_at w r)) \<and>
       g_le (g_score (node_at (grid s) r)) (g_score (node_at (grid s0) r))) \<and>
    (\<forall>t c n. g_ok (grid t) \<and> valid_ref (grid t) c \<longrightarrow> g_ok (grid (relax c n t))) \<and>
    (\<forall>t c n r. valid_ref (grid t) r \<longrightarrow>
       g_score (node_at (grid (relax c n t)) r) = g_score (node_at (grid t) r) \<or>
       (r = n \<and>
        num_less (g_score (node_at (grid (relax c n t)) r)) (g_score (node_at (grid t) r))))"
proof -
  note i = find_path_init_g[OF assms(4,2,3,1)]
  note f = find_path_init_fields[OF assms(4)]
  note r = run_iters_g[OF assms(5) i(1)]
  have 1: "g_ok (grid s0)" "g_ok (grid s)" using i(1) r by (simp_all add: g_inv_def)
  have 2: "g_le (g_score (node_at (grid s0) q)) (g_score (node_at w q)) \<and>
       g_le (g_score (node_at (grid s) q)) (g_score (node_at (grid s0) q))"
    if "valid_ref w q" for q
    using that i(2) r f(6) by blast
  have 3: "g_ok (grid (relax c n t))" if "g_ok (grid t) \<and> valid_ref (grid t) c" for t c n
    using that by (simp add: g_ok_relax)
  show ?thesis using 1 2 3 g_score_relax by blast
qed

theorem g_score_range_and_descent_witness:
  "g_ok example_world \<and>
   g_ok (grid (the (run_iters [[], []] (projr (find_path_init example_world)))))"
proof -
  let ?s0 = "projr (find_path_init example_world)"
  have 1: "g_ok example_world" by code_simp
  have 2: "START example_world = Some (0, 0)" by code_simp
  have 3: "valid_ref example_world (0, 0)" by code_simp
  have "\<not> isl (find_path_init example_world)" by code_simp
  then have 4: "find_path_init example_world = Inr ?s0" by simp
  have "run_iters [[], []] ?s0 \<noteq> None" by code_simp
  then have 5: "run_iters [[], []] ?s0 = Some (the (run_iters [[], []] ?s0))" by simp
  from g_score_range_and_descent[OF 1 2 3 4 5] 1 show ?thesis by blast
qed

section \<open>The insertion indices of the queue\<close>

lemma num_less_total: "a \<noteq> b \<Longrightarrow> num_less a b \<or> num_less b a"
  by (cases a; cases b) auto

lemma num_less_asym: "num_less a b \<Longrightarrow> \<not> num_less b a"
  by (cases a; cases b) auto

lemma entry_less_trans:
  assumes "entry_less a b" and "entry_less b c"
  shows "entry_less a c"
proof (cases "fst a = fst b")
  case ab: True
  show ?thesis
  proof (cases "fst b = fst c")
    case True
    then show ?thesis using assms ab by (simp add: entry_less_def)
  next
    case False
    then show ?thesis using assms ab by (simp add: entry_less_def)
  qed
next
  case ab: False
  then have 1: "num_less (fst a) (fst b)" using assms(1) by (simp add: entry_less_def)
  show ?thesis
  proof (cases "fst b = fst c")
    case True
    then show ?thesis using 1 ab by (simp add: entry_less_def)
  next
    case False
    then have "num_less (fst b) (fst c)" using assms(2) by (simp add: entry_less_def)
    with 1 have 2: "num_less (fst a) (fst c)" by (rule num_less_trans)
    then have "fst a \<noteq> fst c" by auto
    then show ?thesis using 2 by (simp add: entry_less_def)
  qed
qed

lemma pq_min_least:
  assumes "\<forall>y\<in>set seen. \<not> entry_less y m"
  shows "\<forall>y\<in>set (seen @ m # es). \<not> entry_less y (pq_min m es)"
  using assms
proof (induction es arbitrary: m seen)
  case Nil
  then show ?case by (auto simp: entry_less_def)
next
  case (Cons e es)
  show ?case
  proof (cases "entry_less e m")
    case True
    have "\<forall>y\<in>set (seen @ [m]). \<not> entry_less y e"
    proof
      fix y assume y: "y \<in> set (seen @ [m])"
      show "\<not> entry_less y e"
      proof (cases "y = m")
        case True
        then show ?thesis using \<open>entry_less e m\<close>
          by (auto simp: entry_less_def dest: num_less_asym split: if_splits)
      next
        case False
        then have "\<not> entry_less y m" using y Cons.prems by auto
        then show ?thesis using \<open>entry_less e m\<close> entry_less_trans by blast
      qed
    qed
    from Cons.IH[OF this] True show ?thesis by simp
  next
    case False
    have "\<forall>y\<in>set (seen @ [e]). \<not> entry_less y m" using Cons.prems False by auto
    from Cons.IH[OF this] False have "\<forall>y\<in>set ((seen @ [e]) @ m # es). \<not> entry_less y (pq_min m (e # es))"
      by simp
    then show ?thesis by auto
  qed
qed

lemma pq_get_least:
  assumes "q \<noteq> []" and "e \<in> set q"
  shows "\<not> entry_less e (fst (pq_get q))"
proof -
  from assms(1) obtain m es where q: "q = m # es" by (cases q) auto
  have "\<forall>y\<in>set ([] @ m # es). \<not> entry_less y (pq_min m es)"
    by (rule pq_min_least) simp
  then show ?thesis using assms(2) by (auto simp: q pq_get_def Let_def)
qed

lemma pq_get_fifo:
  assumes "q \<noteq> []" and "sorted_wrt (<) (map entry_index q)" and "e \<in> set q"
  shows "e = fst (pq_get q) \<or> num_less (fst (fst (pq_get q))) (fst e) \<or>
     (fst e = fst (fst (pq_get q)) \<and> entry_index (fst (pq_get q)) < entry_index e)"
proof -
  let ?m = "fst (pq_get q)"
  have m: "?m \<in> set q" using assms(1) by (rule pq_get_mem)
  have nl: "\<not> entry_less e ?m" using assms(1,3) by (rule pq_get_least)
  have "distinct (map entry_index q)"
    using assms(2) by (simp add: strict_sorted_iff)
  then have inj: "entry_index e = entry_index ?m \<Longrightarrow> e = ?m"
    using m assms(3) by (meson distinct_map inj_on_def)
  show ?thesis
  proof (cases "fst e = fst ?m")
    case True
    then have "entry_index ?m \<le> entry_index e"
      using nl by (simp add: entry_less_def entry_index_def)
    then show ?thesis using True inj by fastforce
  next
    case False
    then have "\<not> num_less (fst e) (fst ?m)" using nl by (simp add: entry_less_def)
    then show ?thesis using False num_less_total by blast
  qed
qed

lemma sorted_wrt_remove1: "sorted_wrt P xs \<Longrightarrow> sorted_wrt P (remove1 x xs)"
  by (induction xs) (auto dest: notin_set_remove1)

lemma numbered_relax:
  assumes "numbered s" and "below_counter s"
  shows "numbered (relax c n s) \<and> below_counter (relax c n s)"
proof -
  from relax_queue[of c n s]
  consider (same) "active (relax c n s) = active s" "index (relax c n s) = index s"
      "puts (relax c n s) = puts s"
    | (put) sc where "active (relax c n s) = active s @ [(sc, index s, n)]"
      "puts (relax c n s) = puts s @ [(sc, index s, n)]" "index (relax c n s) = index s + 1"
    by blast
  then show ?thesis
  proof cases
    case same
    then show ?thesis using assms by (simp add: numbered_def below_counter_def)
  next
    case (put sc)
    have i: "0 \<le> index s" using assms(1) by (simp add: numbered_def)
    then have n: "nat (index s + 1) = Suc (nat (index s))" by simp
    have "map entry_index (puts (relax c n s)) = 0 # map int [0..<nat (index s + 1)]"
      using assms(1) i by (simp add: put numbered_def n entry_index_def)
    moreover have "sorted_wrt (<) (map entry_index (active (relax c n s)))"
      using assms by (auto simp: put numbered_def below_counter_def sorted_wrt_append entry_index_def)
    moreover have "set (active (relax c n s)) \<subseteq> set (puts (relax c n s))"
      using assms(1) by (auto simp: put numbered_def)
    moreover have "below_counter (relax c n s)"
      using assms(2) by (auto simp: put below_counter_def entry_index_def)
    ultimately show ?thesis using i by (simp add: numbered_def put)
  qed
qed

lemma numbered_fold_relax:
  "numbered s \<Longrightarrow> below_counter s \<Longrightarrow>
     numbered (fold (relax c) nbs s) \<and> below_counter (fold (relax c) nbs s)"
  by (induction nbs arbitrary: s) (simp_all add: numbered_relax)

lemma pq_get_single: "length q = 1 \<Longrightarrow> snd (pq_get q) = []"
  by (cases q) (simp_all add: pq_get_def)

lemma search_iter_fifo:
  assumes "search_iter evs s = Inr s'" and "fifo_inv s"
  shows "fifo_inv s'"
  using assms(1)
proof (cases rule: search_iter_InrE)
  case (paused w1)
  then show ?thesis using assms(2) by (simp add: fifo_inv_def numbered_def below_counter_def)
next
  case (expand w1 nbs)
  let ?s3 = "s\<lparr>grid := make_visited (current_of s) (shown w1),
                active := snd (pq_get (active s))\<rparr>"
  have sub: "set (snd (pq_get (active s))) \<subseteq> set (active s)" by (rule pq_get_rest)
  have "sorted_wrt (<) (map entry_index (snd (pq_get (active s))))"
    using assms(2)
    by (simp add: fifo_inv_def numbered_def pq_get_def Let_def sorted_wrt_remove1
        sorted_wrt_map)
  then have 1: "numbered ?s3" using assms(2) sub by (auto simp: fifo_inv_def numbered_def)
  have 2: "below_counter ?s3"
    using assms(2) sub by (auto simp: fifo_inv_def below_counter_def pq_get_single)
  show ?thesis
    using numbered_fold_relax[OF 1 2] by (simp add: expand(5) fifo_inv_def)
qed

lemma find_path_init_fifo:
  assumes "find_path_init w = Inr s"
  shows "fifo_inv s"
proof -
  from assms obtain st where "START w = Some st" by (rule find_path_init_Inr)
  from find_path_init_queue[OF assms this] show ?thesis
    by (auto simp: fifo_inv_def numbered_def entry_index_def)
qed

lemma run_iters_fifo: "run_iters polls s0 = Some s \<Longrightarrow> fifo_inv s0 \<Longrightarrow> fifo_inv s"
proof (induction polls arbitrary: s0)
  case Nil
  then show ?case by simp
next
  case (Cons evs polls)
  from Cons.prems(1) obtain s1 where 1: "search_iter evs s0 = Inr s1"
    and 2: "run_iters polls s1 = Some s"
    by (auto split: if_splits sum.splits)
  show ?case using Cons.IH[OF 2] search_iter_fifo[OF 1 Cons.prems(2)] by simp
qed

text \<open>
  C2, as the code has it: in every state of a run, the entries put so far carry the indices
  0 (the entry of Start), then 0, 1, 2, ... in the order of the insertions, up to the
  counter: from the second insertion on, each index is greater than all the earlier ones of
  them. The entries in the queue are among those put, their indices grow strictly in the
  order of insertion (so no two of them have the same index), and the entry that \<open>get\<close>
  takes out has a smaller score than every other entry of the queue, or the same score and
  a smaller index, which is an earlier insertion.
\<close>

theorem insertion_indices:
  assumes "find_path_init w = Inr s0" and "run_iters polls s0 = Some s"
  shows "map entry_index (puts s) = 0 # map int [0..<nat (index s)] \<and>
    sorted_wrt (<) (map entry_index (tl (puts s))) \<and>
    sorted_wrt (<) (map entry_index (active s)) \<and>
    set (active s) \<subseteq> set (puts s) \<and>
    (\<forall>e\<in>set (active s).
       e = fst (pq_get (active s)) \<or>
       num_less (fst (fst (pq_get (active s)))) (fst e) \<or>
       (fst e = fst (fst (pq_get (active s))) \<and>
        entry_index (fst (pq_get (active s))) < entry_index e))"
proof -
  have "fifo_inv s" using assms find_path_init_fifo run_iters_fifo by blast
  then have n: "numbered s" by (simp add: fifo_inv_def)
  then have p: "map entry_index (puts s) = 0 # map int [0..<nat (index s)]"
    and a: "sorted_wrt (<) (map entry_index (active s))"
    and sub: "set (active s) \<subseteq> set (puts s)"
    by (simp_all add: numbered_def)
  have "map entry_index (tl (puts s)) = map int [0..<nat (index s)]"
    using p by (simp add: map_tl)
  then have t: "sorted_wrt (<) (map entry_index (tl (puts s)))"
    by (simp add: sorted_wrt_map)
  have f: "e = fst (pq_get (active s)) \<or>
       num_less (fst (fst (pq_get (active s)))) (fst e) \<or>
       (fst e = fst (fst (pq_get (active s))) \<and>
        entry_index (fst (pq_get (active s))) < entry_index e)"
    if "e \<in> set (active s)" for e
    using pq_get_fifo[OF _ a that] that by fastforce
  show ?thesis using p t a sub f by blast
qed

theorem insertion_indices_witness:
  "map entry_index (puts (the (run_iters [[], []] (projr (find_path_init example_world)))))
     = [0, 0, 1]"
proof -
  let ?a = "projr (find_path_init example_world)"
  let ?b = "the (run_iters [[], []] ?a)"
  have "\<not> isl (find_path_init example_world)" by code_simp
  then have 1: "find_path_init example_world = Inr ?a" by (rule sum.collapse(2)[symmetric])
  have "run_iters [[], []] ?a \<noteq> None" by code_simp
  then have 2: "run_iters [[], []] ?a = Some ?b" by (rule option.collapse[symmetric])
  have i: "index ?b = 2" by code_simp
  have u: "[0..<nat 2] = [0, 1]" by code_simp
  from insertion_indices[OF 1 2] show ?thesis unfolding i u by simp
qed

text \<open>
  C2 as stated fails: the entry of Start is put with index 0 and the counter is not
  advanced, so the first neighbour put after it has index 0 again. After one pass on the
  example grid the indices of the insertions are not strictly increasing.
\<close>

theorem insertion_indices_not_strict:
  "\<not> sorted_wrt (<)
      (map entry_index (puts (the (run_iters [[]] (projr (find_path_init example_world))))))"
  by code_simp

section \<open>The path collected by draw\_path\<close>

lemma all_refs_shape:
  assumes "map length ns' = map length ns"
  shows "all_refs ns' = all_refs ns"
proof -
  have l: "length ns' = length ns" using assms by (metis length_map)
  have "length (ns' ! i) = length (ns ! i)" if "i < length ns" for i
    using that l assms by (metis nth_map)
  then show ?thesis unfolding all_refs_def l
    by (intro arg_cong[where f = concat] map_cong) simp_all
qed





lemma shape_upd_node [simp]: "shape (upd_node r f w) = shape w"
  by (simp add: shape_def list_eq_iff_nth_eq)

lemma shape_draw_screen [simp]: "shape (draw_screen w) = shape w"
  by (simp add: shape_def draw_screen_def comp_def)

lemma shape_shown [simp]: "shape (shown w) = shape w"
  by (simp add: shown_def)

lemma shape_make_visited [simp]: "shape (make_visited c w) = shape w"
  by (simp add: make_visited_def)


lemma shape_relax [simp]: "shape (grid (relax c n s)) = shape (grid s)"
  by (simp add: relax_def Let_def make_active_def)













text \<open>A relaxation keeps the invariant.\<close>

lemma relaxed_fields [simp]:
  "row (relaxed w c n x) = row x" "column (relaxed w c n x) = column x"
  "parent_node (relaxed w c n x) = Some c"
  "color (relaxed w c n x) = GREY \<longleftrightarrow> enqueues w n = False \<and> color x = GREY"
  by (auto simp: relaxed_def)















text \<open>
  The walk need not run through. The loop lowers the \<open>g_score\<close> of a cell that was
  visited already without telling the cells that have it as their parent, so the chain of
  parents from End can be shorter than \<open>g_score(End)\<close>; the walk then reads the parent
  of \<open>None\<close>. With Greedy this happens on a grid of five rows and three columns.
\<close>

lemma greedy_walk_raises:
  "map_option draw_path_cells
     (found_world (find_path (replicate 15 [])
        (scenario 5 3 GREEDY (0, 2) (4, 0) [(3, 0), (3, 1)]))) = Some (Inl AttributeError)"
  by code_simp


section \<open>The walk of draw\_path runs through when no parent link is stale\<close>















end
